theory Spec2Isabelle
  imports Complex_Main "HOL-Library.Word"
begin

unbundle bit_operations_syntax

section \<open>Data model\<close>

text \<open>
  A \<^verbatim>\<open>Uint8Array\<close> is a list of 8-bit words. The operands of JavaScript's bitwise operators
  are 32-bit integers: they are 32-bit words here, read with \<open>sint\<close> where the operator
  yields a signed number (\<^verbatim>\<open><<\<close>, \<^verbatim>\<open>|\<close>, \<^verbatim>\<open>^\<close>, \<^verbatim>\<open>&\<close>, \<^verbatim>\<open>>>\<close>) and with \<open>uint\<close> where
  it yields an unsigned one (\<^verbatim>\<open>>>>\<close>). Plain JavaScript numbers holding integers are \<open>int\<close>;
  array lengths and indices are \<open>nat\<close>.
\<close>

type_synonym byte = "8 word"
type_synonym int32 = "32 word"

text \<open>Constants of \<^verbatim>\<open>ACOUSTIC_CONFIG\<close> and \<^verbatim>\<open>MESSAGE_TYPES\<close>.\<close>

definition MAX_PAYLOAD_SIZE :: nat where
  "MAX_PAYLOAD_SIZE = 256"

definition INTERLEAVE_DEPTH :: nat where
  "INTERLEAVE_DEPTH = 8"

definition SLOTS_PER_FRAME :: nat where
  "SLOTS_PER_FRAME = 20"

definition MESSAGE_TYPE_DATA :: int where
  "MESSAGE_TYPE_DATA = 2"

text \<open>The statistics counters of \<^verbatim>\<open>EncodingLayer\<close>.\<close>

record enc_stats =
  bytesEncoded :: nat
  bytesDecoded :: nat
  framesCreated :: nat
  framesDecoded :: nat
  crcErrors :: nat
  correctedErrors :: nat

definition initial_stats :: enc_stats where
  "initial_stats = \<lparr>bytesEncoded = 0, bytesDecoded = 0, framesCreated = 0,
     framesDecoded = 0, crcErrors = 0, correctedErrors = 0\<rparr>"

section \<open>CRC-32\<close>

text \<open>
  \<^verbatim>\<open>_generateCRCTable\<close>: entry \<open>i\<close> is \<open>i\<close> after eight rounds of
  \<^verbatim>\<open>crc = (crc & 1) ? (0xEDB88320 ^ (crc >>> 1)) : (crc >>> 1)\<close>.
\<close>

definition crc_round :: "int32 \<Rightarrow> int32" where
  "crc_round crc = (if crc AND 1 \<noteq> 0 then 0xEDB88320 XOR drop_bit 1 crc else drop_bit 1 crc)"

definition crc_entry :: "nat \<Rightarrow> int32" where
  "crc_entry i = (crc_round ^^ 8) (word_of_nat i)"

definition crcTable :: "int32 list" where
  "crcTable = map crc_entry [0..<256]"

text \<open>
  \<^verbatim>\<open>calculateCRC\<close>: the loop over the bytes, then the final XOR; \<^verbatim>\<open>>>> 0\<close> makes the
  result an unsigned number.
\<close>

fun crc_loop :: "int32 \<Rightarrow> byte list \<Rightarrow> int32" where
  "crc_loop crc [] = crc"
| "crc_loop crc (b # bs) =
     crc_loop (crcTable ! unat ((crc XOR ucast b) AND 0xFF) XOR drop_bit 8 crc) bs"

definition calculateCRC_word :: "byte list \<Rightarrow> int32" where
  "calculateCRC_word data = crc_loop 0xFFFFFFFF data XOR 0xFFFFFFFF"

definition calculateCRC :: "byte list \<Rightarrow> int" where
  "calculateCRC data = uint (calculateCRC_word data)"

text \<open>
  The reference the table-driven code is compared with: CRC-32 of IEEE 802.3 computed bit
  by bit, reflected, with polynomial \<open>0xEDB88320\<close>, initial value \<open>0xFFFFFFFF\<close> and a
  final XOR with \<open>0xFFFFFFFF\<close>. Each byte is XORed into the low end of the register,
  which is then shifted right eight times, the polynomial being XORed in whenever a one
  is shifted out.
\<close>

definition ieee_shift :: "int32 \<Rightarrow> int32" where
  "ieee_shift r = (if bit r 0 then drop_bit 1 r XOR 0xEDB88320 else drop_bit 1 r)"

fun ieee_register :: "int32 \<Rightarrow> byte list \<Rightarrow> int32" where
  "ieee_register r [] = r"
| "ieee_register r (b # bs) = ieee_register ((ieee_shift ^^ 8) (r XOR ucast b)) bs"

definition ieee_crc32 :: "byte list \<Rightarrow> int" where
  "ieee_crc32 data = uint (ieee_register 0xFFFFFFFF data XOR 0xFFFFFFFF)"

section \<open>Frames\<close>

text \<open>
  The options object of \<^verbatim>\<open>createFrame\<close>; a field that is absent is \<open>None\<close>.
  \<^verbatim>\<open>options.x || d\<close> yields \<open>d\<close> when the field is absent and also when it is \<open>0\<close>.
\<close>

record frame_options =
  opt_type :: "int option"
  opt_sequence :: "int option"
  opt_flags :: "int option"

definition or_default :: "int option \<Rightarrow> int \<Rightarrow> int" where
  "or_default v d = (case v of None \<Rightarrow> d | Some x \<Rightarrow> if x = 0 then d else x)"

definition no_options :: frame_options where
  "no_options = \<lparr>opt_type = None, opt_sequence = None, opt_flags = None\<rparr>"

text \<open>
  \<^verbatim>\<open>(x >> k) & 0xFF\<close> stored into a \<^verbatim>\<open>Uint8Array\<close>: \<open>x\<close> is converted to a 32-bit
  integer, shifted arithmetically, masked, and the low eight bits are kept.
\<close>

definition shr_byte :: "int32 \<Rightarrow> nat \<Rightarrow> byte" where
  "shr_byte x k = ucast (signed_drop_bit k x AND 0xFF)"

text \<open>
  \<^verbatim>\<open>createFrame\<close> for a payload that is a \<^verbatim>\<open>Uint8Array\<close> (a string payload is first
  encoded to one by \<^verbatim>\<open>TextEncoder\<close>, which is outside this model). The frame is the
  eight header bytes, the payload and the four bytes of the CRC of what precedes them.
  There is no check of the payload's length.
\<close>

definition frame_header :: "byte list \<Rightarrow> frame_options \<Rightarrow> byte list" where
  "frame_header payloadBytes options =
     (let type = or_default (opt_type options) MESSAGE_TYPE_DATA;
          sequence = or_default (opt_sequence options) 0;
          flags = or_default (opt_flags options) 0
      in [0xAC, 0x4D, word_of_int type, word_of_int flags,
          shr_byte (word_of_int sequence) 8, ucast (word_of_int sequence AND (0xFF :: int32)),
          shr_byte (word_of_nat (length payloadBytes)) 8,
          ucast (word_of_nat (length payloadBytes) AND (0xFF :: int32))])"

definition crc_bytes :: "int \<Rightarrow> byte list" where
  "crc_bytes crc =
     [shr_byte (word_of_int crc) 24, shr_byte (word_of_int crc) 16,
      shr_byte (word_of_int crc) 8, ucast (word_of_int crc AND (0xFF :: int32))]"

definition createFrame :: "byte list \<Rightarrow> frame_options \<Rightarrow> enc_stats \<Rightarrow> byte list \<times> enc_stats" where
  "createFrame payloadBytes options st =
     (let headerSize = 8;
          frameSize = headerSize + length payloadBytes + 4;
          body = frame_header payloadBytes options @ payloadBytes;
          crc = calculateCRC body;
          frame = body @ crc_bytes crc
      in (frame, st\<lparr>bytesEncoded := bytesEncoded st + frameSize,
                     framesCreated := framesCreated st + 1\<rparr>))"

text \<open>
  The result object of \<^verbatim>\<open>parseFrame\<close>: either \<^verbatim>\<open>{valid: false, error, correctable}\<close>
  (\<open>correctable\<close> is \<open>None\<close> where the object has no such field) or the parsed frame.
\<close>

datatype parse_result =
  Invalid (error: string) (correctable: "bool option")
| Valid (ptype: int) (pflags: int) (psequence: int) (ppayload: "byte list") (ppayloadLength: nat)

definition be16 :: "byte \<Rightarrow> byte \<Rightarrow> int32" where
  "be16 hi lo = push_bit 8 (ucast hi) OR ucast lo"

text \<open>The length field, \<^verbatim>\<open>(frame[6] << 8) | frame[7]\<close>.\<close>

definition length_field :: "byte list \<Rightarrow> nat" where
  "length_field frame = nat (sint (be16 (frame ! 6) (frame ! 7)))"

text \<open>
  The four CRC bytes after a payload of the given length, combined with \<^verbatim>\<open><<\<close> and
  \<^verbatim>\<open>|\<close>. The result of these operators is a signed 32-bit number, so \<^verbatim>\<open>receivedCRC\<close>
  is the signed reading of the field; \<^verbatim>\<open>calculatedCRC\<close> comes from \<^verbatim>\<open>calculateCRC\<close>
  and is unsigned. \<^verbatim>\<open>!==\<close> compares the two numbers.
\<close>

definition crc_field :: "byte list \<Rightarrow> nat \<Rightarrow> int32" where
  "crc_field frame payloadLength =
     push_bit 24 (ucast (frame ! (8 + payloadLength))) OR
     push_bit 16 (ucast (frame ! (8 + payloadLength + 1))) OR
     push_bit 8 (ucast (frame ! (8 + payloadLength + 2))) OR
     ucast (frame ! (8 + payloadLength + 3))"

definition receivedCRC :: "byte list \<Rightarrow> nat \<Rightarrow> int" where
  "receivedCRC frame payloadLength = sint (crc_field frame payloadLength)"

definition parseFrame :: "byte list \<Rightarrow> enc_stats \<Rightarrow> parse_result \<times> enc_stats" where
  "parseFrame frame st =
     (if length frame < 12 then (Invalid ''Frame too short'' None, st)
      else if frame ! 0 \<noteq> 0xAC \<or> frame ! 1 \<noteq> 0x4D then (Invalid ''Invalid magic bytes'' None, st)
      else
        let type = uint (frame ! 2);
            flags = uint (frame ! 3);
            sequence = sint (be16 (frame ! 4) (frame ! 5));
            payloadLength = length_field frame;
            expectedLength = 8 + payloadLength + 4
        in if length frame < expectedLength then (Invalid ''Frame truncated'' None, st)
           else
             let payload = take payloadLength (drop 8 frame);
                 calculatedCRC = calculateCRC (take (8 + payloadLength) frame)
             in if receivedCRC frame payloadLength \<noteq> calculatedCRC
                then (Invalid ''CRC mismatch'' (Some True), st\<lparr>crcErrors := crcErrors st + 1\<rparr>)
                else (Valid type flags sequence payload payloadLength,
                      st\<lparr>bytesDecoded := bytesDecoded st + length frame,
                         framesDecoded := framesDecoded st + 1\<rparr>))"

text \<open>Flipping bit \<open>n\<close> of the byte at index \<open>i\<close> of a buffer.\<close>

definition flip_bit_at :: "nat \<Rightarrow> nat \<Rightarrow> byte list \<Rightarrow> byte list" where
  "flip_bit_at i n buf = buf[i := (buf ! i) XOR push_bit n 1]"

text \<open>Options used in the examples: a first fragment of a beacon with sequence number 1.\<close>

definition beacon_options :: frame_options where
  "beacon_options = \<lparr>opt_type = Some 1, opt_sequence = Some 1, opt_flags = Some 0x40\<rparr>"

section \<open>Forward error correction\<close>

text \<open>
  \<^verbatim>\<open>_interleave\<close>: the buffer is written row by row into a grid of \<open>depth\<close> columns and
  \<open>numRows = \<lceil>length / depth\<rceil>\<close> rows and read column by column; the output buffer of
  \<open>numRows * depth\<close> bytes starts as zeros, so the cells past the input stay zero.
  \<open>depth\<close> is \<^verbatim>\<open>this.interleaveDepth\<close>, which the constructor never leaves at 0.
\<close>

definition ceil_div :: "nat \<Rightarrow> nat \<Rightarrow> nat" where
  "ceil_div n d = (n + d - 1) div d"

definition interleave_index :: "nat \<Rightarrow> nat \<Rightarrow> nat \<Rightarrow> nat" where
  "interleave_index depth numRows i = (i mod depth) * numRows + i div depth"

definition interleave :: "nat \<Rightarrow> byte list \<Rightarrow> byte list" where
  "interleave depth data =
     (let numRows = ceil_div (length data) depth
      in fold (\<lambda>i interleaved. interleaved[interleave_index depth numRows i := data ! i])
           [0..<length data] (replicate (numRows * depth) 0))"

text \<open>\<^verbatim>\<open>_deinterleave\<close>: byte \<open>i\<close> goes to \<open>row * depth + col\<close> when that is inside the buffer.\<close>

definition deinterleave_index :: "nat \<Rightarrow> nat \<Rightarrow> nat \<Rightarrow> nat" where
  "deinterleave_index depth numRows i = (i mod numRows) * depth + i div numRows"

definition deinterleave :: "nat \<Rightarrow> byte list \<Rightarrow> byte list" where
  "deinterleave depth data =
     (let numRows = ceil_div (length data) depth
      in fold (\<lambda>i deinterleaved.
                 let originalIndex = deinterleave_index depth numRows i
                 in if originalIndex < length data
                    then deinterleaved[originalIndex := data ! i] else deinterleaved)
           [0..<length data] (replicate (length data) 0))"

text \<open>\<^verbatim>\<open>applyFEC\<close>: every byte three times, then interleaved.\<close>

definition expand3 :: "byte list \<Rightarrow> byte list" where
  "expand3 data = concat (map (\<lambda>b. [b, b, b]) data)"

definition applyFEC :: "nat \<Rightarrow> byte list \<Rightarrow> byte list" where
  "applyFEC depth data = interleave depth (expand3 data)"

text \<open>
  The vote on one bit position in \<^verbatim>\<open>decodeFEC\<close>: the bit is set in the result when at
  least two of the three bytes have it, and the counter of corrected errors goes up only
  inside that branch, when the votes are two and not three.
\<close>

definition votes :: "byte \<Rightarrow> byte \<Rightarrow> byte \<Rightarrow> nat \<Rightarrow> nat" where
  "votes b1 b2 b3 n =
     (let mask = push_bit n 1
      in (if b1 AND mask \<noteq> 0 then 1 else 0) + (if b2 AND mask \<noteq> 0 then 1 else 0) +
         (if b3 AND mask \<noteq> 0 then 1 else 0))"

definition vote_step :: "byte \<Rightarrow> byte \<Rightarrow> byte \<Rightarrow> nat \<Rightarrow> byte \<times> nat \<Rightarrow> byte \<times> nat" where
  "vote_step b1 b2 b3 n rc =
     (if 2 \<le> votes b1 b2 b3 n
      then (fst rc OR push_bit n 1, if votes b1 b2 b3 n < 3 then snd rc + 1 else snd rc)
      else rc)"

text \<open>The loop over the eight bits: the voted byte and how often the counter was raised.\<close>

definition majority_vote :: "byte \<Rightarrow> byte \<Rightarrow> byte \<Rightarrow> byte \<times> nat" where
  "majority_vote b1 b2 b3 = fold (vote_step b1 b2 b3) [0..<8] (0, 0)"

text \<open>
  \<^verbatim>\<open>decodeFEC\<close>: the output has \<open>\<lfloor>length / 3\<rfloor>\<close> bytes (\<^verbatim>\<open>new Uint8Array(x)\<close> drops the
  fraction of \<open>x\<close>), byte \<open>i\<close> voted from bytes \<open>3i\<close>, \<open>3i + 1\<close>, \<open>3i + 2\<close> of the
  de-interleaved buffer; \<open>stats.correctedErrors\<close> collects the corrections.
\<close>

definition decode_byte :: "byte list \<Rightarrow> nat \<Rightarrow> byte \<times> nat" where
  "decode_byte deinterleaved i =
     majority_vote (deinterleaved ! (i * 3)) (deinterleaved ! (i * 3 + 1))
       (deinterleaved ! (i * 3 + 2))"

definition decodeFEC :: "nat \<Rightarrow> byte list \<Rightarrow> enc_stats \<Rightarrow> byte list \<times> enc_stats" where
  "decodeFEC depth data st =
     (let deinterleaved = deinterleave depth data;
          n = length deinterleaved div 3;
          decoded = map (\<lambda>i. fst (decode_byte deinterleaved i)) [0..<n];
          corrected = sum_list (map (\<lambda>i. snd (decode_byte deinterleaved i)) [0..<n])
      in (decoded, st\<lparr>correctedErrors := correctedErrors st + corrected\<rparr>))"

text \<open>
  Where \<^verbatim>\<open>applyFEC\<close> puts copy \<open>j\<close> (0, 1 or 2) of byte \<open>i\<close> of a buffer of \<open>len\<close> bytes:
  the byte is at index \<open>3i + j\<close> before interleaving.
\<close>

definition copy_position :: "nat \<Rightarrow> nat \<Rightarrow> nat \<Rightarrow> nat \<Rightarrow> nat" where
  "copy_position depth len i j =
     interleave_index depth (ceil_div (3 * len) depth) (3 * i + j)"

text \<open>The de-interleaved encoding: the tripled bytes and the zero padding of the grid.\<close>

definition padded :: "nat \<Rightarrow> byte list \<Rightarrow> byte list" where
  "padded D b = expand3 b @ replicate (ceil_div (3 * length b) D * D - 3 * length b) 0"

section \<open>Fragmentation\<close>

text \<open>
  \<^verbatim>\<open>fragmentData\<close> for data that is a \<^verbatim>\<open>Uint8Array\<close>. \<open>maxSize\<close> is
  \<^verbatim>\<open>this.maxPayloadSize\<close>, which the constructor sets to
  \<^verbatim>\<open>options.maxPayloadSize || MAX_PAYLOAD_SIZE\<close> and so never leaves at 0. Fragment \<open>i\<close>
  is the slice from \<open>i * maxSize\<close> to \<open>min (i * maxSize + maxSize) length\<close>, framed by
  \<^verbatim>\<open>createFrame\<close> with sequence number \<open>i\<close>, bit 7 of the flags set when more fragments
  follow and bit 6 set on the first one. The statistics pass through every call of
  \<^verbatim>\<open>createFrame\<close>.
\<close>

definition fragment_flags :: "nat \<Rightarrow> nat \<Rightarrow> int" where
  "fragment_flags i totalFragments =
     (if i < totalFragments - 1 then 0x80 else 0) OR (if i = 0 then 0x40 else 0)"

definition fragment_step ::
  "nat \<Rightarrow> byte list \<Rightarrow> int \<Rightarrow> nat \<Rightarrow> nat \<Rightarrow> byte list list \<times> enc_stats \<Rightarrow>
     byte list list \<times> enc_stats" where
  "fragment_step maxSize bytes type totalFragments i state =
     (case state of (fragments, st) \<Rightarrow>
        let start = i * maxSize;
            end = min (start + maxSize) (length bytes);
            fragmentData = take (end - start) (drop start bytes);
            flags = fragment_flags i totalFragments
        in case createFrame fragmentData
                  \<lparr>opt_type = Some type, opt_sequence = Some (int i), opt_flags = Some flags\<rparr> st of
             (frame, st') \<Rightarrow> (fragments @ [frame], st'))"

definition fragmentData ::
  "nat \<Rightarrow> byte list \<Rightarrow> int option \<Rightarrow> enc_stats \<Rightarrow> byte list list \<times> enc_stats" where
  "fragmentData maxSize bytes optType st =
     (let type = or_default optType MESSAGE_TYPE_DATA;
          totalFragments = ceil_div (length bytes) maxSize
      in fold (fragment_step maxSize bytes type totalFragments) [0..<totalFragments] ([], st))"

section \<open>Reassembly\<close>

text \<open>
  The objects \<^verbatim>\<open>reassembleData\<close> reads: parsed frames with their fields \<^verbatim>\<open>sequence\<close>,
  \<^verbatim>\<open>flags\<close> and \<^verbatim>\<open>payload\<close>.
\<close>

record fragment =
  frag_sequence :: int
  frag_flags :: int
  frag_payload :: "byte list"

datatype reassembly =
  Incomplete string
| Complete (assembled: "byte list") (fragmentCount: nat)

text \<open>
  \<^verbatim>\<open>reassembleData\<close>: a stable sort by sequence number, a search for a fragment with bit 6
  of the flags set and for one with bit 7 clear, and the concatenation of all payloads.
  Nothing else is checked.
\<close>

definition reassembleData :: "fragment list \<Rightarrow> reassembly" where
  "reassembleData fragments =
     (let sorted = sort_key frag_sequence fragments;
          firstFragment = find (\<lambda>f. frag_flags f AND 0x40 \<noteq> 0) sorted;
          lastFragment = find (\<lambda>f. \<not> (frag_flags f AND 0x80 \<noteq> 0)) sorted
      in if firstFragment = None \<or> lastFragment = None then Incomplete ''Missing fragments''
         else Complete (concat (map frag_payload sorted)) (length sorted))"

text \<open>
  The fragments of a three-fragment message as \<^verbatim>\<open>fragmentData\<close> numbers and flags them
  (first: bits 7 and 6; middle: bit 7; last: none), each with a one-byte payload.
\<close>

definition fragment_0 :: fragment where
  "fragment_0 = \<lparr>frag_sequence = 0, frag_flags = 0xC0, frag_payload = [0x61]\<rparr>"

definition fragment_1 :: fragment where
  "fragment_1 = \<lparr>frag_sequence = 1, frag_flags = 0x80, frag_payload = [0x62]\<rparr>"

definition fragment_2 :: fragment where
  "fragment_2 = \<lparr>frag_sequence = 2, frag_flags = 0x00, frag_payload = [0x63]\<rparr>"

section \<open>Bytes to FSK symbols\<close>

text \<open>
  \<^verbatim>\<open>_bytesToSymbols\<close>. \<open>bitsPerSymbol\<close> is \<^verbatim>\<open>Math.log2(NUM_FREQUENCIES)\<close>: 4 for the sixteen
  ultrasonic frequencies, 3 for the eight audible ones; for any other value no symbol is
  produced. Symbols are numbers, here \<open>nat\<close>.

  With 3 bits per symbol the bytes are shifted into \<^verbatim>\<open>bitBuffer\<close>, a 32-bit integer which
  is never masked: old bits leave at the top. After each byte the inner loop emits
  \<^verbatim>\<open>(bitBuffer >> bitsInBuffer) & 0x07\<close> while at least three bits are pending
  (\<open>bitsInBuffer\<close> stays below 11, so the shift counts are below 32).
\<close>

function drain :: "int32 \<times> nat \<times> nat list \<Rightarrow> int32 \<times> nat \<times> nat list" where
  "drain (bitBuffer, bitsInBuffer, symbols) =
     (if 3 \<le> bitsInBuffer
      then drain (bitBuffer, bitsInBuffer - 3,
             symbols @ [unat (signed_drop_bit (bitsInBuffer - 3) bitBuffer AND 0x07)])
      else (bitBuffer, bitsInBuffer, symbols))"
  by pat_completeness auto
termination
  by (relation "measure (\<lambda>(bitBuffer, bitsInBuffer, symbols). bitsInBuffer)") auto

declare drain.simps [simp del]

definition push_byte :: "byte \<Rightarrow> int32 \<times> nat \<times> nat list \<Rightarrow> int32 \<times> nat \<times> nat list" where
  "push_byte byte state =
     (case state of (bitBuffer, bitsInBuffer, symbols) \<Rightarrow>
        drain (push_bit 8 bitBuffer OR ucast byte, bitsInBuffer + 8, symbols))"

text \<open>The bits left after the last byte are shifted up to the top of a last symbol.\<close>

definition pad_remaining :: "int32 \<times> nat \<times> nat list \<Rightarrow> nat list" where
  "pad_remaining state =
     (case state of (bitBuffer, bitsInBuffer, symbols) \<Rightarrow>
        if 0 < bitsInBuffer
        then symbols @ [unat (push_bit (3 - bitsInBuffer) bitBuffer AND 0x07)]
        else symbols)"

definition bytesToSymbols :: "nat \<Rightarrow> byte list \<Rightarrow> nat list" where
  "bytesToSymbols bitsPerSymbol data =
     (if bitsPerSymbol = 4
      then concat (map (\<lambda>byte. [unat (signed_drop_bit 4 (ucast byte :: int32) AND 0x0F),
                                  unat ((ucast byte :: int32) AND 0x0F)]) data)
      else if bitsPerSymbol = 3
      then pad_remaining (fold push_byte data (0, 0, []))
      else [])"

text \<open>
  The packing the symbols are compared with: the bits of the bytes, most significant bit
  first, as one stream; the stream cut into groups of three; a last group of one or two
  bits filled up to three with zeros, on the left or on the right; each group read as a
  number, most significant bit first.
\<close>

definition byte_bits :: "byte \<Rightarrow> bool list" where
  "byte_bits b = map (bit b) [7, 6, 5, 4, 3, 2, 1, 0]"

definition bit_stream :: "byte list \<Rightarrow> bool list" where
  "bit_stream data = concat (map byte_bits data)"

fun groups_of_3 :: "bool list \<Rightarrow> bool list list" where
  "groups_of_3 (a # b # c # rest) = [a, b, c] # groups_of_3 rest"
| "groups_of_3 [] = []"
| "groups_of_3 g = [g]"

definition bits_value :: "bool list \<Rightarrow> nat" where
  "bits_value bs = foldl (\<lambda>v b. 2 * v + (if b then 1 else 0)) 0 bs"

definition pad_left :: "bool list \<Rightarrow> bool list" where
  "pad_left g = replicate (3 - length g) False @ g"

definition pad_right :: "bool list \<Rightarrow> bool list" where
  "pad_right g = g @ replicate (3 - length g) False"

definition packed_symbols :: "(bool list \<Rightarrow> bool list) \<Rightarrow> byte list \<Rightarrow> nat list" where
  "packed_symbols pad data = map (\<lambda>g. bits_value (pad g)) (groups_of_3 (bit_stream data))"

text \<open>The bits still pending in \<^verbatim>\<open>bitBuffer\<close> between two bytes, oldest first.\<close>

definition pending_bits :: "int32 \<Rightarrow> nat \<Rightarrow> bool list" where
  "pending_bits buf n = (if n = 0 then [] else if n = 1 then [bit buf 0] else [bit buf 1, bit buf 0])"

section \<open>MAC layer\<close>

text \<open>
  The slot table is a \<^verbatim>\<open>Map\<close> from device identifiers to arrays of slot numbers: an
  association list in insertion order, with \<^verbatim>\<open>set\<close> replacing the entry of a key that is
  present and appending otherwise.
\<close>

type_synonym slot_table = "(string \<times> nat list) list"

fun table_set :: "string \<Rightarrow> nat list \<Rightarrow> slot_table \<Rightarrow> slot_table" where
  "table_set k v [] = [(k, v)]"
| "table_set k v (e # t) = (if fst e = k then (k, v) # t else e # table_set k v t)"

definition table_delete :: "string \<Rightarrow> slot_table \<Rightarrow> slot_table" where
  "table_delete k t = filter (\<lambda>e. fst e \<noteq> k) t"

text \<open>\<^verbatim>\<open>Array.from(slotTable.values()).flat()\<close>: all slot numbers of the table, with repetitions.\<close>

definition table_slots :: "slot_table \<Rightarrow> nat list" where
  "table_slots t = concat (map snd t)"

text \<open>
  A pending request (its timestamp is not used; its callback is modelled by the list of
  responses that processing returns) and what the callback is called with:
  \<^verbatim>\<open>{success: true, slots, frameNumber}\<close>, \<^verbatim>\<open>{success: true, slots, contention: true}\<close> or
  \<^verbatim>\<open>{success: false, reason}\<close>.
\<close>

record slot_request =
  req_deviceId :: string
  numSlots :: nat
  priority :: nat

datatype slot_response =
  Assigned "nat list" nat
| Contention "nat list"
| Failed string

fun granted :: "slot_response \<Rightarrow> nat list" where
  "granted (Assigned sl fn) = sl"
| "granted (Contention sl) = sl"
| "granted (Failed reason) = []"

record queue_entry =
  q_frame :: "byte list"
  q_priority :: nat
  retries :: nat

record mac =
  deviceId :: string
  slotsPerFrame :: nat
  priorityLevel :: nat
  isCoordinator :: bool
  assignedSlots :: "nat list"
  pendingSlotRequests :: "slot_request list"
  slotTable :: slot_table
  currentSlot :: nat
  frameNumber :: nat
  transmitQueue :: "queue_entry list"
  receiveBuffer :: "(byte list \<times> nat) list"
  collisionCount :: nat
  framesReceived :: nat
  collisions :: nat
  retransmissions :: nat
  slotUtilization :: rat

text \<open>
  The constructor: \<^verbatim>\<open>options.slotsPerFrame || 20\<close> and \<^verbatim>\<open>options.priority || 5\<close>, so neither
  is ever 0.
\<close>

definition new_mac :: "string \<Rightarrow> nat option \<Rightarrow> nat option \<Rightarrow> mac" where
  "new_mac dev optSlotsPerFrame optPriority =
     \<lparr>deviceId = dev,
      slotsPerFrame = (case optSlotsPerFrame of None \<Rightarrow> SLOTS_PER_FRAME
                        | Some n \<Rightarrow> if n = 0 then SLOTS_PER_FRAME else n),
      priorityLevel = (case optPriority of None \<Rightarrow> 5 | Some p \<Rightarrow> if p = 0 then 5 else p),
      isCoordinator = False, assignedSlots = [], pendingSlotRequests = [], slotTable = [],
      currentSlot = 0, frameNumber = 0, transmitQueue = [], receiveBuffer = [],
      collisionCount = 0, framesReceived = 0, collisions = 0, retransmissions = 0,
      slotUtilization = 0\<rparr>"

definition requestSlots :: "nat \<Rightarrow> mac \<Rightarrow> mac" where
  "requestSlots n s =
     s\<lparr>pendingSlotRequests := pendingSlotRequests s @
          [\<lparr>req_deviceId = deviceId s, numSlots = n, priority = priorityLevel s\<rparr>]\<rparr>"

text \<open>\<^verbatim>\<open>_getAvailableSlots\<close>: the slots of the frame that no entry of the table lists.\<close>

definition getAvailableSlots :: "mac \<Rightarrow> nat list" where
  "getAvailableSlots s =
     filter (\<lambda>i. i \<notin> set (table_slots (slotTable s))) [0..<slotsPerFrame s]"

text \<open>
  The inner loop of \<^verbatim>\<open>_processSlotRequests\<close>: while \<open>i < numSlots\<close> and free slots remain,
  the slot at index \<open>\<lfloor>length \<sqdot> (i + 1) / (numSlots + 1)\<rfloor>\<close> of the free list is spliced
  out of it and given to the request.
\<close>

function assign_loop :: "nat \<Rightarrow> nat \<Rightarrow> nat list \<Rightarrow> nat list \<Rightarrow> nat list \<times> nat list" where
  "assign_loop k i availableSlots slotsToAssign =
     (if i < k \<and> 0 < length availableSlots
      then let slotIndex = length availableSlots * (i + 1) div (k + 1);
               slot = availableSlots ! slotIndex
           in assign_loop k (i + 1)
                (take slotIndex availableSlots @ drop (Suc slotIndex) availableSlots)
                (slotsToAssign @ [slot])
      else (slotsToAssign, availableSlots))"
  by pat_completeness auto
termination
  by (relation "measure (\<lambda>(k, i, availableSlots, slotsToAssign). k - i)") auto

declare assign_loop.simps [simp del]

text \<open>
  One round of the loop over the sorted requests, in coordinator mode. The state of the
  loop is the MAC, the free list and the responses given so far.
\<close>

definition coordinator_step ::
  "slot_request \<Rightarrow> mac \<times> nat list \<times> (slot_request \<times> slot_response) list \<Rightarrow>
     mac \<times> nat list \<times> (slot_request \<times> slot_response) list" where
  "coordinator_step request state =
     (case state of (s, availableSlots, responses) \<Rightarrow>
        case assign_loop (numSlots request) 0 availableSlots [] of
          (slotsToAssign, availableSlots') \<Rightarrow>
            if 0 < length slotsToAssign
            then (s\<lparr>slotTable := table_set (req_deviceId request) slotsToAssign (slotTable s),
                    assignedSlots := (if req_deviceId request = deviceId s then slotsToAssign
                                      else assignedSlots s)\<rparr>,
                  availableSlots',
                  responses @ [(request, Assigned slotsToAssign (frameNumber s))])
            else (s, availableSlots', responses @ [(request, Failed ''No slots available'')]))"

text \<open>
  \<^verbatim>\<open>_hashDeviceId\<close>: \<^verbatim>\<open>hash = ((hash << 5) - hash) + c\<close>, cut to 32 bits by
  \<^verbatim>\<open>hash & hash\<close>, and the absolute value of the signed result.
\<close>

definition hashDeviceId :: "string \<Rightarrow> nat" where
  "hashDeviceId dev =
     nat \<bar>sint (fold (\<lambda>c hash. push_bit 5 hash - hash + word_of_nat (of_char c)) dev (0 :: int32))\<bar>"

text \<open>\<^verbatim>\<open>_contentionBasedSlotSelection\<close>: every request gets as many slots as it asks for.\<close>

definition contention_step ::
  "slot_request \<Rightarrow> mac \<times> (slot_request \<times> slot_response) list \<Rightarrow>
     mac \<times> (slot_request \<times> slot_response) list" where
  "contention_step request state =
     (case state of (s, responses) \<Rightarrow>
        let hash = hashDeviceId (req_deviceId request);
            slots = map (\<lambda>i. ((hash + i * 7) mod slotsPerFrame s + priority request div 2)
                              mod slotsPerFrame s) [0..<numSlots request]
        in (s\<lparr>assignedSlots := (if req_deviceId request = deviceId s then slots
                                 else assignedSlots s),
               slotTable := table_set (req_deviceId request) slots (slotTable s)\<rparr>,
            responses @ [(request, Contention slots)]))"

definition contentionBasedSlotSelection :: "mac \<Rightarrow> mac \<times> (slot_request \<times> slot_response) list" where
  "contentionBasedSlotSelection s =
     (case fold contention_step (pendingSlotRequests s) (s, []) of
        (s', responses) \<Rightarrow> (s'\<lparr>pendingSlotRequests := []\<rparr>, responses))"

text \<open>
  \<^verbatim>\<open>_processSlotRequests\<close>: contention when the device is no coordinator and has pending
  requests; otherwise the requests, stably sorted by descending priority, are served from
  the free list.
\<close>

definition processSlotRequests :: "mac \<Rightarrow> mac \<times> (slot_request \<times> slot_response) list" where
  "processSlotRequests s =
     (if \<not> isCoordinator s \<and> 0 < length (pendingSlotRequests s)
      then contentionBasedSlotSelection s
      else
        let availableSlots = getAvailableSlots s;
            sorted = sort_key (\<lambda>r. - int (priority r)) (pendingSlotRequests s)
        in case fold coordinator_step sorted (s, availableSlots, []) of
             (s', availableSlots', responses) \<Rightarrow> (s'\<lparr>pendingSlotRequests := []\<rparr>, responses))"

text \<open>
  \<^verbatim>\<open>_onFrameStart\<close>: the utilisation is the number of slot numbers in the table, counted
  with repetitions, over the slots of a frame (a quotient of two integers, kept exact).
\<close>

definition utilization :: "mac \<Rightarrow> rat" where
  "utilization s = of_nat (length (table_slots (slotTable s))) / of_nat (slotsPerFrame s)"

definition onFrameStart :: "mac \<Rightarrow> mac \<times> (slot_request \<times> slot_response) list" where
  "onFrameStart s =
     (case processSlotRequests (s\<lparr>currentSlot := 0\<rparr>) of
        (s', responses) \<Rightarrow> (s'\<lparr>slotUtilization := utilization s'\<rparr>, responses))"

text \<open>
  \<^verbatim>\<open>_handleCollision\<close>; \<open>rnd\<close> is the value of \<^verbatim>\<open>Math.random()\<close>, at least 0 and below 1.
\<close>

definition handleCollision :: "rat \<Rightarrow> mac \<Rightarrow> mac" where
  "handleCollision rnd s =
     (let count = collisionCount s + 1;
          maxBackoff = min 16 (2 ^ count);
          backoffSlots = nat \<lfloor>rnd * of_nat maxBackoff\<rfloor>;
          newSlot = (currentSlot s + backoffSlots) mod slotsPerFrame s;
          s1 = s\<lparr>collisionCount := count, assignedSlots := [newSlot]\<rparr>
      in case transmitQueue s1 of
           [] \<Rightarrow> s1
         | e # q \<Rightarrow> s1\<lparr>transmitQueue := e\<lparr>retries := retries e + 1\<rparr> # q,
                        retransmissions := retransmissions s1 + 1\<rparr>)"

text \<open>\<^verbatim>\<open>receiveFrame\<close>: a frame received in one of the device's own slots is a collision.\<close>

definition receiveFrame :: "byte list \<Rightarrow> rat \<Rightarrow> mac \<Rightarrow> mac" where
  "receiveFrame received rnd s =
     (let s1 = s\<lparr>framesReceived := framesReceived s + 1\<rparr>
      in if currentSlot s1 \<in> set (assignedSlots s1)
         then handleCollision rnd (s1\<lparr>collisions := collisions s1 + 1\<rparr>)
         else s1\<lparr>receiveBuffer := receiveBuffer s1 @ [(received, currentSlot s1)]\<rparr>)"

definition becomeCoordinator :: "mac \<Rightarrow> mac" where
  "becomeCoordinator s =
     s\<lparr>isCoordinator := True, assignedSlots := [0],
       slotTable := table_set (deviceId s) [0] (slotTable s)\<rparr>"


definition releaseSlots :: "mac \<Rightarrow> mac" where
  "releaseSlots s = s\<lparr>slotTable := table_delete (deviceId s) (slotTable s), assignedSlots := []\<rparr>"

text \<open>
  The responses of the coordinator loop, written as a recursion over the sorted requests:
  each request is served by \<open>assign_loop\<close> from what the requests before it left of the
  free list. The loop of \<open>coordinator_step\<close> is proved to return these responses
  (\<open>fold_coordinator_responses\<close>).
\<close>

fun serve :: "nat \<Rightarrow> nat list \<Rightarrow> slot_request list \<Rightarrow> (slot_request \<times> slot_response) list" where
  "serve fn free [] = []"
| "serve fn free (r # rs) =
     (r, if 0 < length (fst (assign_loop (numSlots r) 0 free []))
         then Assigned (fst (assign_loop (numSlots r) 0 free [])) fn
         else Failed ''No slots available'')
     # serve fn (snd (assign_loop (numSlots r) 0 free [])) rs"

text \<open>All the slots that a list of responses hands out, in the order of the responses.\<close>

definition granted_slots :: "(slot_request \<times> slot_response) list \<Rightarrow> nat list" where
  "granted_slots responses = concat (map (\<lambda>e. granted (snd e)) responses)"

text \<open>
  A coordinator on the default frame of 20 slots that has released its own slot, so that
  the slot table is empty, with the requests of two devices pending: 2 slots each, at
  priority 5.
\<close>

definition two_device_requests :: mac where
  "two_device_requests =
     (releaseSlots (becomeCoordinator (new_mac ''C'' None None)))
       \<lparr>pendingSlotRequests := [\<lparr>req_deviceId = ''A'', numSlots = 2, priority = 5\<rparr>,
                                \<lparr>req_deviceId = ''B'', numSlots = 2, priority = 5\<rparr>]\<rparr>"


section \<open>The table-driven CRC is the bitwise CRC-32\<close>

lemma crcTable_nth: "i < 256 \<Longrightarrow> crcTable ! i = crc_entry i"
  by (simp add: crcTable_def)

lemma funpow8: "(f ^^ 8) x = f (f (f (f (f (f (f (f x)))))))"
  by (simp add: eval_nat_numeral)

lemma crc_round_ieee: "crc_round = ieee_shift"
  by (rule ext) (simp add: crc_round_def ieee_shift_def and_one_eq mod2_eq_if bit_0 xor.commute)

lemma ieee_shift_xor: "ieee_shift (a XOR b) = ieee_shift a XOR ieee_shift b"
  by (simp add: ieee_shift_def bit_xor_iff ac_simps)

lemma ieee_pow_xor: "(ieee_shift ^^ n) (a XOR b) = (ieee_shift ^^ n) a XOR (ieee_shift ^^ n) b"
  by (induction n) (simp_all add: ieee_shift_xor)

text \<open>A register whose low \<open>k\<close> bits are clear is only shifted by \<open>k\<close> rounds.\<close>

lemma ieee_pow_high: "take_bit k x = 0 \<Longrightarrow> (ieee_shift ^^ k) x = drop_bit k x"
proof (induction k)
  case 0
  then show ?case by simp
next
  case (Suc k)
  have "bit (take_bit (Suc k) x) k \<longleftrightarrow> bit x k"
    by (simp add: bit_take_bit_iff)
  with Suc.prems have nb: "\<not> bit x k" by simp
  have "take_bit k x = take_bit k (take_bit (Suc k) x)"
    by simp
  with Suc.prems have a: "take_bit k x = 0" by simp
  have b: "\<not> bit (drop_bit k x) 0"
    using nb by (simp add: bit_drop_bit_eq)
  have "drop_bit (Suc k) x = drop_bit 1 (drop_bit k x)"
    by simp
  then show ?case
    using Suc.IH [OF a] b by (simp add: ieee_shift_def)
qed

lemma low_byte_mask: "(y :: int32) AND 0xFF = take_bit 8 y"
proof -
  have "(0xFF :: int32) = mask 8" by (simp add: mask_eq_exp_minus_1)
  then show ?thesis by (simp add: take_bit_eq_mask)
qed

lemma split_low: "(y :: int32) = take_bit 8 y XOR push_bit 8 (drop_bit 8 y)"
  by (rule bit_eqI) (auto simp add: bit_simps)

lemma table_step:
  "crcTable ! unat ((crc XOR ucast b) AND 0xFF) XOR drop_bit 8 crc =
   (ieee_shift ^^ 8) (crc XOR ucast (b :: byte))"
proof -
  define y where "y = crc XOR ucast b"
  have lt: "unat (take_bit 8 y) < 256"
    using unsigned_take_bit_eq [of 8 y, where ?'a = nat] take_bit_nat_less_exp [of 8 "unat y"]
    by simp
  have hi: "(ieee_shift ^^ 8) (push_bit 8 (drop_bit 8 y)) = drop_bit 8 y"
  proof -
    have "drop_bit 8 (push_bit 8 (drop_bit 8 y)) = drop_bit 8 y"
      by (rule bit_eqI) (auto simp add: bit_simps dest: bit_imp_le_length)
    then show ?thesis
      by (subst ieee_pow_high) (simp_all add: take_bit_push_bit)
  qed
  have db: "drop_bit 8 y = drop_bit 8 crc"
    unfolding y_def by (rule bit_eqI) (auto simp add: bit_simps dest: bit_imp_le_length)
  have "(ieee_shift ^^ 8) y = (ieee_shift ^^ 8) (take_bit 8 y XOR push_bit 8 (drop_bit 8 y))"
    using split_low [of y] by simp
  also have "\<dots> = (ieee_shift ^^ 8) (take_bit 8 y) XOR drop_bit 8 y"
    by (simp only: ieee_pow_xor hi)
  finally have "(ieee_shift ^^ 8) y = (ieee_shift ^^ 8) (take_bit 8 y) XOR drop_bit 8 crc"
    by (simp add: db)
  moreover have "crcTable ! unat (take_bit 8 y) = (ieee_shift ^^ 8) (take_bit 8 y)"
    using lt by (simp add: crcTable_nth crc_entry_def crc_round_ieee)
  ultimately show ?thesis
    by (simp add: low_byte_mask y_def)
qed

lemma crc_loop_ieee: "crc_loop r data = ieee_register r data"
  by (induction data arbitrary: r) (simp_all add: table_step)

lemmas crc_eval = calculateCRC_def calculateCRC_word_def crcTable_nth crc_entry_def funpow8
  crc_round_def

text \<open>
  C2. \<^verbatim>\<open>calculateCRC\<close> is the CRC-32 of IEEE 802.3: on every buffer the table-driven
  loop returns what the bitwise computation with the reflected polynomial \<open>0xEDB88320\<close>,
  initial value \<open>0xFFFFFFFF\<close> and final XOR \<open>0xFFFFFFFF\<close> returns; the CRC of the empty
  buffer is \<open>0\<close> and the CRC of the ASCII bytes of "123456789" is \<open>0xCBF43926\<close>.
\<close>

theorem calculateCRC_is_ieee_crc32:
  "calculateCRC data = ieee_crc32 data
   \<and> calculateCRC [] = 0
   \<and> calculateCRC [0x31, 0x32, 0x33, 0x34, 0x35, 0x36, 0x37, 0x38, 0x39] = 0xCBF43926"
proof (intro conjI)
  show "calculateCRC data = ieee_crc32 data"
    by (simp add: calculateCRC_def calculateCRC_word_def ieee_crc32_def crc_loop_ieee)
  show "calculateCRC [] = 0"
    by (simp add: calculateCRC_def calculateCRC_word_def)
  show "calculateCRC [0x31, 0x32, 0x33, 0x34, 0x35, 0x36, 0x37, 0x38, 0x39] = 0xCBF43926"
    by (simp add: crc_eval)
qed

section \<open>Frame construction and parsing\<close>

lemma sint_uint_eq: "sint (a :: int32) = uint (b :: int32) \<Longrightarrow> a = b"
proof -
  assume "sint a = uint b"
  then have "(word_of_int (sint a) :: int32) = word_of_int (uint b)" by simp
  then show "a = b" by simp
qed

lemmas frame_eval = createFrame_def frame_header_def crc_bytes_def shr_byte_def or_default_def
  MESSAGE_TYPE_DATA_def Let_def

lemmas parse_eval = parseFrame_def receivedCRC_def crc_field_def length_field_def be16_def Let_def

lemma frame_123: "fst (createFrame [1, 2, 3] no_options st) =
     [0xAC, 0x4D, 2, 0, 0, 0, 0, 3, 1, 2, 3, 0x6D, 0x1A, 0xCB, 0x14]"
  by (simp add: frame_eval no_options_def crc_eval)

lemma frame_beacon: "fst (createFrame [1, 2, 3] beacon_options st) =
     [0xAC, 0x4D, 1, 0x40, 0, 1, 0, 3, 1, 2, 3, 0xB6, 0x56, 0xE6, 0x99]"
  by (simp add: frame_eval beacon_options_def crc_eval)

text \<open>
  C1. The round trip fails on the payload \<open>[1, 2, 3]\<close> sent with type 1, flags \<open>0x40\<close>
  and sequence 1. The CRC of header and payload is \<open>0xB656E699\<close>, whose top bit is set:
  \<^verbatim>\<open>parseFrame\<close> reads the four CRC bytes as the negative number \<open>-1235818855\<close>,
  \<^verbatim>\<open>calculateCRC\<close> returns \<open>3059148441\<close>, and the frame that \<^verbatim>\<open>createFrame\<close> has just
  built is rejected with a CRC mismatch.
\<close>

theorem parseFrame_createFrame_crc_sign:
  "fst (createFrame [1, 2, 3] beacon_options st) =
     [0xAC, 0x4D, 1, 0x40, 0, 1, 0, 3, 1, 2, 3, 0xB6, 0x56, 0xE6, 0x99]
   \<and> receivedCRC [0xAC, 0x4D, 1, 0x40, 0, 1, 0, 3, 1, 2, 3, 0xB6, 0x56, 0xE6, 0x99] 3 = - 1235818855
   \<and> calculateCRC [0xAC, 0x4D, 1, 0x40, 0, 1, 0, 3, 1, 2, 3] = 3059148441
   \<and> fst (parseFrame (fst (createFrame [1, 2, 3] beacon_options st)) st') =
       Invalid ''CRC mismatch'' (Some True)"
proof (intro conjI)
  show "fst (createFrame [1, 2, 3] beacon_options st) =
     [0xAC, 0x4D, 1, 0x40, 0, 1, 0, 3, 1, 2, 3, 0xB6, 0x56, 0xE6, 0x99]"
    by (rule frame_beacon)
  show "receivedCRC [0xAC, 0x4D, 1, 0x40, 0, 1, 0, 3, 1, 2, 3, 0xB6, 0x56, 0xE6, 0x99] 3 = - 1235818855"
    by (simp add: receivedCRC_def crc_field_def)
  show "calculateCRC [0xAC, 0x4D, 1, 0x40, 0, 1, 0, 3, 1, 2, 3] = 3059148441"
    by (simp add: crc_eval)
  show "fst (parseFrame (fst (createFrame [1, 2, 3] beacon_options st)) st') =
       Invalid ''CRC mismatch'' (Some True)"
    by (simp add: frame_beacon parse_eval crc_eval)
qed

theorem parseFrame_createFrame_crc_sign_witness:
  "fst (parseFrame (fst (createFrame [1, 2, 3] beacon_options initial_stats)) initial_stats) =
     Invalid ''CRC mismatch'' (Some True)"
  using parseFrame_createFrame_crc_sign [of initial_stats initial_stats]
  by blast

text \<open>
  C5. The failures of \<^verbatim>\<open>parseFrame\<close>, in the order it checks them: "Frame too short"
  exactly when the buffer has fewer than 12 bytes; otherwise "Invalid magic bytes" when
  byte 0 is not \<open>0xAC\<close> or byte 1 is not \<open>0x4D\<close>; otherwise "Frame truncated" when the
  buffer is shorter than 12 plus the length field; otherwise "CRC mismatch", marked
  correctable and counted in \<open>crcErrors\<close>, when the stored CRC bytes differ from the CRC
  computed over header and payload. Flipping bit 0 of any of the three payload bytes of
  \<^verbatim>\<open>createFrame([1, 2, 3])\<close> gives a CRC mismatch.
\<close>

theorem parseFrame_failure_taxonomy:
  "(fst (parseFrame frame st) = Invalid ''Frame too short'' None \<longleftrightarrow> length frame < 12)
   \<and> (12 \<le> length frame \<and> (frame ! 0 \<noteq> 0xAC \<or> frame ! 1 \<noteq> 0x4D) \<longrightarrow>
        fst (parseFrame frame st) = Invalid ''Invalid magic bytes'' None)
   \<and> (12 \<le> length frame \<and> frame ! 0 = 0xAC \<and> frame ! 1 = 0x4D \<and>
        length frame < 12 + length_field frame \<longrightarrow>
        fst (parseFrame frame st) = Invalid ''Frame truncated'' None)
   \<and> (12 + length_field frame \<le> length frame \<and> frame ! 0 = 0xAC \<and> frame ! 1 = 0x4D \<and>
        crc_field frame (length_field frame) \<noteq>
          calculateCRC_word (take (8 + length_field frame) frame) \<longrightarrow>
        parseFrame frame st =
          (Invalid ''CRC mismatch'' (Some True), st\<lparr>crcErrors := crcErrors st + 1\<rparr>))
   \<and> (\<forall>i\<in>{0, 1, 2}.
        fst (parseFrame (flip_bit_at (8 + i) 0 (fst (createFrame [1, 2, 3] no_options st0))) st) =
        Invalid ''CRC mismatch'' (Some True))"
proof (intro conjI)
  show "fst (parseFrame frame st) = Invalid ''Frame too short'' None \<longleftrightarrow> length frame < 12"
    by (simp add: parseFrame_def Let_def)
  show "12 \<le> length frame \<and> (frame ! 0 \<noteq> 0xAC \<or> frame ! 1 \<noteq> 0x4D) \<longrightarrow>
        fst (parseFrame frame st) = Invalid ''Invalid magic bytes'' None"
    by (simp add: parseFrame_def)
  show "12 \<le> length frame \<and> frame ! 0 = 0xAC \<and> frame ! 1 = 0x4D \<and>
        length frame < 12 + length_field frame \<longrightarrow>
        fst (parseFrame frame st) = Invalid ''Frame truncated'' None"
    by (simp add: parseFrame_def Let_def)
  show "12 + length_field frame \<le> length frame \<and> frame ! 0 = 0xAC \<and> frame ! 1 = 0x4D \<and>
        crc_field frame (length_field frame) \<noteq>
          calculateCRC_word (take (8 + length_field frame) frame) \<longrightarrow>
        parseFrame frame st =
          (Invalid ''CRC mismatch'' (Some True), st\<lparr>crcErrors := crcErrors st + 1\<rparr>)"
    using sint_uint_eq [of "crc_field frame (length_field frame)"
        "calculateCRC_word (take (8 + length_field frame) frame)"]
    by (auto simp add: parseFrame_def Let_def receivedCRC_def calculateCRC_def)
  show "\<forall>i\<in>{0, 1, 2}.
        fst (parseFrame (flip_bit_at (8 + i) 0 (fst (createFrame [1, 2, 3] no_options st0))) st) =
        Invalid ''CRC mismatch'' (Some True)"
    unfolding frame_123
    by (simp add: flip_bit_at_def parse_eval crc_eval)
qed

theorem parseFrame_failure_taxonomy_witness:
  "fst (parseFrame [] initial_stats) = Invalid ''Frame too short'' None
   \<and> fst (parseFrame [0xAC, 0x4E, 2, 0, 0, 0, 0, 0, 0, 0, 0, 0] initial_stats) =
       Invalid ''Invalid magic bytes'' None
   \<and> fst (parseFrame [0xAC, 0x4D, 2, 0, 0, 0, 0, 1, 0, 0, 0, 0] initial_stats) =
       Invalid ''Frame truncated'' None
   \<and> parseFrame [0xAC, 0x4D, 2, 0, 0, 0, 0, 0, 0, 0, 0, 0] initial_stats =
       (Invalid ''CRC mismatch'' (Some True), initial_stats\<lparr>crcErrors := 1\<rparr>)
   \<and> fst (parseFrame (flip_bit_at 9 0 (fst (createFrame [1, 2, 3] no_options initial_stats)))
        initial_stats) = Invalid ''CRC mismatch'' (Some True)"
  using parseFrame_failure_taxonomy [of "[]" initial_stats initial_stats]
    parseFrame_failure_taxonomy [of "[0xAC, 0x4E, 2, 0, 0, 0, 0, 0, 0, 0, 0, 0]" initial_stats initial_stats]
    parseFrame_failure_taxonomy [of "[0xAC, 0x4D, 2, 0, 0, 0, 0, 1, 0, 0, 0, 0]" initial_stats initial_stats]
    parseFrame_failure_taxonomy [of "[0xAC, 0x4D, 2, 0, 0, 0, 0, 0, 0, 0, 0, 0]" initial_stats initial_stats]
  by (simp add: length_field_def be16_def crc_field_def initial_stats_def
      calculateCRC_word_def crcTable_nth crc_entry_def funpow8 crc_round_def)

lemma and_ff_bits: "bit ((w :: int32) AND 0xFF) n \<longleftrightarrow> n < 8 \<and> bit w n"
  by (simp add: low_byte_mask bit_take_bit_iff)

lemma shr_byte_8_bits: "bit (shr_byte w 8) n \<longleftrightarrow> n < 8 \<and> bit w (8 + n)"
  unfolding shr_byte_def low_byte_mask
  by (auto simp add: bit_simps)

lemma be16_split: "be16 (shr_byte w 8) (ucast (w AND 0xFF)) = take_bit 16 w"
proof (rule bit_eqI)
  fix n :: nat
  have "n < 16 \<Longrightarrow> \<not> n < 8 \<Longrightarrow> 8 + (n - 8) = n" by simp
  then show "bit (be16 (shr_byte w 8) (ucast (w AND 0xFF))) n = bit (take_bit 16 w) n"
    unfolding be16_def bit_or_iff bit_push_bit_iff bit_ucast_iff shr_byte_8_bits and_ff_bits
      bit_take_bit_iff
    by (auto dest: bit_imp_le_length)
qed

lemma sint_small: "uint (w :: int32) < 2 ^ 31 \<Longrightarrow> sint w = uint w"
proof -
  assume a: "uint w < 2 ^ 31"
  have b: "- (2 ^ 31) \<le> uint w"
    by (rule order_trans [of _ 0]) simp_all
  have "signed_take_bit 31 (uint w) = uint w"
    using b a by (rule signed_take_bit_int_eq_self)
  then show ?thesis
    by (simp add: sint_uint)
qed

lemma uint_take_bit_16: "uint (take_bit 16 (w :: int32)) = uint w mod 65536"
proof -
  have "uint (take_bit 16 w) = take_bit 16 (uint w)"
    by (rule unsigned_take_bit_eq)
  also have "\<dots> = uint w mod 2 ^ 16"
    by (rule take_bit_eq_mod)
  finally show ?thesis by simp
qed

lemma sint_take_bit_16: "sint (take_bit 16 (w :: int32)) = uint w mod 65536"
proof -
  have "uint w mod 65536 < 65536" by simp
  then have "uint w mod 65536 < 2 ^ 31" by simp
  then show ?thesis
    using sint_small [of "take_bit 16 w"] by (simp only: uint_take_bit_16)
qed

lemma createFrame_length: "length (fst (createFrame payload options st)) = 12 + length payload"
  by (simp add: createFrame_def frame_header_def crc_bytes_def Let_def)

lemma createFrame_length_field:
  "length_field (fst (createFrame payload options st)) = length payload mod 65536"
proof -
  have d: "(65536 :: nat) dvd 4294967296" by simp
  have "length_field (fst (createFrame payload options st)) =
      nat (sint (take_bit 16 (word_of_nat (length payload) :: int32)))"
    by (simp add: createFrame_def frame_header_def Let_def length_field_def be16_split)
  also have "\<dots> = length payload mod 4294967296 mod 65536"
    unfolding sint_take_bit_16 by (simp add: unat_of_nat nat_mod_distrib)
  also have "\<dots> = length payload mod 65536"
    using d by (rule mod_mod_cancel)
  finally show ?thesis .
qed

text \<open>
  C10, as stated, fails on a payload of 65536 bytes: the length field has two bytes and
  holds 0.
\<close>

theorem createFrame_length_field_counterexample:
  "length (replicate 65536 (0 :: byte)) = 65536
   \<and> length_field (fst (createFrame (replicate 65536 0) no_options initial_stats)) = 0"
  by (simp add: createFrame_length_field)

lemma fold_frames_inv:
  assumes "\<And>i fragments st. P (fst (createFrame (take (min (i * maxSize + maxSize) (length bytes) - i * maxSize) (drop (i * maxSize) bytes))
        \<lparr>opt_type = Some type, opt_sequence = Some (int i), opt_flags = Some (fragment_flags i tot)\<rparr> st))"
    and "\<forall>f\<in>set (fst state). P f"
  shows "\<forall>f\<in>set (fst (fold (fragment_step maxSize bytes type tot) is state)). P f"
  using assms(2)
proof (induction "is" arbitrary: state)
  case Nil
  then show ?case by simp
next
  case (Cons i rest)
  obtain fragments st where state: "state = (fragments, st)" by (cases state)
  have "\<forall>f\<in>set (fst (fragment_step maxSize bytes type tot i state)). P f"
    using Cons.prems assms(1) [of i st]
    by (auto simp add: state fragment_step_def Let_def split: prod.splits)
  then show ?case
    using Cons.IH by simp
qed

lemma fragmentData_frame_length:
  "\<forall>f\<in>set (fst (fragmentData maxSize bytes optType st)). length f \<le> 12 + maxSize"
  unfolding fragmentData_def Let_def
  by (rule fold_frames_inv) (simp_all add: createFrame_length)

lemma fragmentData_length_field:
  "maxSize < 65536 \<Longrightarrow> \<forall>f\<in>set (fst (fragmentData maxSize bytes optType st)). length_field f \<le> maxSize"
  unfolding fragmentData_def Let_def
  by (rule fold_frames_inv) (simp_all add: createFrame_length_field)

lemma fragmentData_count:
  "length (fst (fragmentData maxSize bytes optType st)) = ceil_div (length bytes) maxSize"
proof -
  have "length (fst (fold (fragment_step maxSize bytes type tot) is state)) = length (fst state) + length is"
    for type tot "is" state
    by (induction "is" arbitrary: state) (auto simp add: fragment_step_def Let_def split: prod.splits)
  then show ?thesis
    by (simp add: fragmentData_def Let_def)
qed

text \<open>
  C10, amended. \<^verbatim>\<open>createFrame\<close> has no failure branch and no check of the payload's
  length: for a payload of any length \<open>L\<close> it returns a frame of \<open>12 + L\<close> bytes whose
  big-endian length field holds \<open>L mod 65536\<close>, which is \<open>L\<close> itself for every \<open>L\<close> below
  65536. A payload of 300 bytes, more than \<open>MAX_PAYLOAD_SIZE\<close>, gets a frame of 312 bytes
  with 300 in the length field. Only \<^verbatim>\<open>fragmentData\<close> applies the limit: it makes
  \<open>\<lceil>length / maxSize\<rceil>\<close> frames, each of at most \<open>12 + maxSize\<close> bytes, and with the
  default limit of 256 every length field is at most 256.
\<close>

theorem createFrame_no_size_check:
  "length (fst (createFrame payloadBytes options st)) = 12 + length payloadBytes
   \<and> length_field (fst (createFrame payloadBytes options st)) = length payloadBytes mod 65536
   \<and> MAX_PAYLOAD_SIZE < length (replicate 300 (0 :: byte))
   \<and> length (fst (createFrame (replicate 300 0) no_options initial_stats)) = 312
   \<and> length_field (fst (createFrame (replicate 300 0) no_options initial_stats)) = 300
   \<and> length (fst (fragmentData maxSize bytes optType st)) = ceil_div (length bytes) maxSize
   \<and> (\<forall>f\<in>set (fst (fragmentData maxSize bytes optType st)). length f \<le> 12 + maxSize)
   \<and> (\<forall>f\<in>set (fst (fragmentData MAX_PAYLOAD_SIZE bytes optType st)).
        length_field f \<le> MAX_PAYLOAD_SIZE)"
proof -
  have "\<forall>f\<in>set (fst (fragmentData MAX_PAYLOAD_SIZE bytes optType st)).
      length_field f \<le> MAX_PAYLOAD_SIZE"
    by (rule fragmentData_length_field) (simp add: MAX_PAYLOAD_SIZE_def)
  then show ?thesis
    using fragmentData_frame_length [of maxSize bytes optType st]
    by (simp add: createFrame_length createFrame_length_field MAX_PAYLOAD_SIZE_def
        fragmentData_count)
qed

theorem createFrame_no_size_check_witness:
  "length (fst (fragmentData MAX_PAYLOAD_SIZE (replicate 300 0) None initial_stats)) = 2
   \<and> length (fst (fragmentData MAX_PAYLOAD_SIZE (replicate 300 0) None initial_stats) ! 0) \<le>
       12 + MAX_PAYLOAD_SIZE
   \<and> length (fst (fragmentData MAX_PAYLOAD_SIZE (replicate 300 0) None initial_stats) ! 1) \<le>
       12 + MAX_PAYLOAD_SIZE
   \<and> length_field (fst (fragmentData MAX_PAYLOAD_SIZE (replicate 300 0) None initial_stats) ! 1) \<le>
       MAX_PAYLOAD_SIZE
   \<and> length (fst (createFrame (replicate 300 0) no_options initial_stats)) = 312"
proof -
  let ?fs = "fst (fragmentData MAX_PAYLOAD_SIZE (replicate 300 0) None initial_stats)"
  note t = createFrame_no_size_check [where maxSize = MAX_PAYLOAD_SIZE
      and bytes = "replicate 300 0" and optType = None and st = initial_stats
      and payloadBytes = "[]" and options = no_options]
  from t have n: "length ?fs = 2"
    by (simp add: ceil_div_def MAX_PAYLOAD_SIZE_def)
  from t have len: "\<forall>f\<in>set ?fs. length f \<le> 12 + MAX_PAYLOAD_SIZE"
    by blast
  from t have field: "\<forall>f\<in>set ?fs. length_field f \<le> MAX_PAYLOAD_SIZE"
    by blast
  from t have whole: "length (fst (createFrame (replicate 300 0) no_options initial_stats)) = 312"
    by blast
  have "?fs ! 0 \<in> set ?fs" "?fs ! 1 \<in> set ?fs"
    using n by simp_all
  then show ?thesis
    using n len field whole by blast
qed

section \<open>Interleaving and majority decoding\<close>

lemma ceil_div_mult: "0 < d \<Longrightarrow> n \<le> ceil_div n d * d"
proof -
  assume d: "0 < d"
  have "(n + d - 1) mod d < d" using d by simp
  moreover have "(n + d - 1) div d * d + (n + d - 1) mod d = n + d - 1"
    by simp
  ultimately show ?thesis
    unfolding ceil_div_def by linarith
qed

lemma ceil_div_exact: "0 < d \<Longrightarrow> ceil_div (r * d) d = r"
proof -
  assume d: "0 < d"
  then have "r * d + d - 1 = (d - 1) + r * d" by simp
  then have "(r * d + d - 1) div d = (d - 1) div d + r"
    using d by (simp only: div_mult_self1)
  then show ?thesis using d by (simp add: ceil_div_def)
qed

lemma grid_index_less: "a < A \<Longrightarrow> b < B \<Longrightarrow> a * B + b < A * (B :: nat)"
proof -
  assume a: "a < A" and b: "b < B"
  have "a * B + b < a * B + B" using b by simp
  also have "\<dots> = (a + 1) * B" by simp
  also have "\<dots> \<le> A * B" using a by (intro mult_le_mono1) simp
  finally show ?thesis .
qed

lemma grid_index_div: "b < B \<Longrightarrow> (a * B + b) div B = (a :: nat)"
  by simp

lemma grid_index_mod: "b < B \<Longrightarrow> (a * B + b) mod B = (b :: nat)"
  by simp

lemma deint_int_index:
  "i div D < R \<Longrightarrow> deinterleave_index D R (interleave_index D R i) = i"
  by (simp add: deinterleave_index_def interleave_index_def)

lemma int_deint_index:
  "i div R < D \<Longrightarrow> interleave_index D R (deinterleave_index D R i) = i"
  by (simp add: deinterleave_index_def interleave_index_def)

lemma interleave_index_less: "0 < D \<Longrightarrow> i div D < R \<Longrightarrow> interleave_index D R i < R * D"
  unfolding interleave_index_def
  using grid_index_less [of "i mod D" D "i div D" R] by (simp add: mult.commute)

lemma deinterleave_index_less: "0 < R \<Longrightarrow> i div R < D \<Longrightarrow> deinterleave_index D R i < R * D"
  unfolding deinterleave_index_def
  using grid_index_less [of "i mod R" R "i div R" D] by simp

lemma div_less_grid: "i < R * D \<Longrightarrow> i div D < (R :: nat)"
  by (simp add: less_mult_imp_div_less)

lemma div_less_grid': "i < R * D \<Longrightarrow> i div R < (D :: nat)"
  by (simp add: less_mult_imp_div_less mult.commute)

lemma fold_update_length:
  "length (fold (\<lambda>i acc. acc[f i := g i]) is init) = length init"
  by (induction "is" arbitrary: init) simp_all

lemma fold_update_nth_other:
  "j \<notin> f ` set is \<Longrightarrow> fold (\<lambda>i acc. acc[f i := g i]) is init ! j = init ! j"
  by (induction "is" arbitrary: init) auto

lemma fold_update_nth_hit:
  "distinct (map f is) \<Longrightarrow> i \<in> set is \<Longrightarrow> f i < length init \<Longrightarrow>
   fold (\<lambda>i acc. acc[f i := g i]) is init ! (f i) = g i"
proof (induction "is" arbitrary: init)
  case Nil
  then show ?case by simp
next
  case (Cons a rest)
  show ?case
  proof (cases "i = a")
    case True
    have "f a \<notin> f ` set rest" using Cons.prems(1) by auto
    then have "fold (\<lambda>i acc. acc[f i := g i]) rest (init[f a := g a]) ! (f a) = init[f a := g a] ! (f a)"
      by (rule fold_update_nth_other)
    then show ?thesis using True Cons.prems(3) by simp
  next
    case False
    then have "i \<in> set rest" using Cons.prems(2) by simp
    moreover have "distinct (map f rest)" using Cons.prems(1) by simp
    moreover have "f i < length (init[f a := g a])" using Cons.prems(3) by simp
    ultimately show ?thesis using Cons.IH by simp
  qed
qed

lemma interleave_index_inj: "inj_on (interleave_index D R) {i. i div D < R}"
  by (rule inj_on_inverseI [where g = "deinterleave_index D R"]) (simp add: deint_int_index)

lemma deinterleave_index_inj: "inj_on (deinterleave_index D R) {i. i div R < D}"
  by (rule inj_on_inverseI [where g = "interleave_index D R"]) (simp add: int_deint_index)

lemma length_interleave: "length (interleave D e) = ceil_div (length e) D * D"
  by (simp add: interleave_def Let_def fold_update_length)

lemma length_deinterleave: "length (deinterleave D x) = length x"
proof -
  have "length (fold (\<lambda>i acc. if P i then acc[f i := g i] else acc) is init) = length init"
    for P :: "nat \<Rightarrow> bool" and f g "is" and init :: "byte list"
    by (induction "is" arbitrary: init) simp_all
  then show ?thesis
    by (simp add: deinterleave_def Let_def)
qed

lemma interleave_nth:
  assumes D: "0 < D" and k: "k < ceil_div (length e) D * D"
  shows "interleave D e ! (interleave_index D (ceil_div (length e) D) k) =
         (if k < length e then e ! k else 0)"
proof -
  define R where "R = ceil_div (length e) D"
  have len: "length e \<le> R * D" unfolding R_def using D by (rule ceil_div_mult)
  have sub: "{0..<length e} \<subseteq> {i. i div D < R}"
    using len by (auto intro: div_less_grid)
  have kR: "k div D < R" using k unfolding R_def by (rule div_less_grid)
  have dist: "distinct (map (interleave_index D R) [0..<length e])"
    using inj_on_subset [OF interleave_index_inj sub] by (simp add: distinct_map)
  have idx: "interleave_index D R k < R * D"
    using D kR by (rule interleave_index_less)
  show ?thesis
  proof (cases "k < length e")
    case True
    then have "fold (\<lambda>i acc. acc[interleave_index D R i := e ! i]) [0..<length e]
        (replicate (R * D) 0) ! (interleave_index D R k) = e ! k"
      using dist idx by (intro fold_update_nth_hit) simp_all
    then show ?thesis using True by (simp add: interleave_def Let_def R_def)
  next
    case False
    have "interleave_index D R k \<notin> interleave_index D R ` set [0..<length e]"
    proof
      assume "interleave_index D R k \<in> interleave_index D R ` set [0..<length e]"
      then obtain i where i: "i < length e" "interleave_index D R k = interleave_index D R i"
        by auto
      have "i div D < R" using i(1) sub by auto
      then have "k = i"
        using inj_onD [OF interleave_index_inj i(2)] kR by simp
      then show False using i(1) False by simp
    qed
    then have "fold (\<lambda>i acc. acc[interleave_index D R i := e ! i]) [0..<length e]
        (replicate (R * D) 0) ! (interleave_index D R k) = replicate (R * D) 0 ! (interleave_index D R k)"
      by (rule fold_update_nth_other)
    then show ?thesis using False idx by (simp add: interleave_def Let_def R_def)
  qed
qed

lemma deinterleave_nth:
  assumes D: "0 < D" and len: "length x = R * D" and k: "k < R * D"
  shows "deinterleave D x ! k = x ! (interleave_index D R k)"
proof -
  have R: "0 < R" using k by (cases R) simp_all
  have cd: "ceil_div (length x) D = R" using D len by (simp add: ceil_div_exact)
  have guard: "deinterleave_index D R i < length x" if "i \<in> set [0..<length x]" for i
    using that len R by (auto intro!: deinterleave_index_less div_less_grid')
  have unguarded: "deinterleave D x =
      fold (\<lambda>i acc. acc[deinterleave_index D R i := x ! i]) [0..<length x] (replicate (length x) 0)"
    unfolding deinterleave_def cd Let_def
    by (rule fold_cong) (simp_all add: guard)
  have sub: "{0..<length x} \<subseteq> {i. i div R < D}"
    using len by (auto intro: div_less_grid')
  have dist: "distinct (map (deinterleave_index D R) [0..<length x])"
    using inj_on_subset [OF deinterleave_index_inj sub] by (simp add: distinct_map)
  have kR: "k div D < R" using k by (rule div_less_grid)
  define i where "i = interleave_index D R k"
  have i_less: "i < length x" unfolding i_def len using D kR by (rule interleave_index_less)
  have fi: "deinterleave_index D R i = k" unfolding i_def using kR by (rule deint_int_index)
  have "fold (\<lambda>i acc. acc[deinterleave_index D R i := x ! i]) [0..<length x]
      (replicate (length x) 0) ! (deinterleave_index D R i) = x ! i"
    using dist i_less k len fi by (intro fold_update_nth_hit) simp_all
  then show ?thesis
    unfolding unguarded by (simp add: fi) (simp add: i_def)
qed

lemma deinterleave_interleave:
  assumes D: "0 < D"
  shows "deinterleave D (interleave D e) = e @ replicate (ceil_div (length e) D * D - length e) 0"
proof (rule nth_equalityI)
  have len: "length e \<le> ceil_div (length e) D * D" using D by (rule ceil_div_mult)
  then show "length (deinterleave D (interleave D e)) =
      length (e @ replicate (ceil_div (length e) D * D - length e) 0)"
    by (simp add: length_deinterleave length_interleave)
  fix k
  assume "k < length (deinterleave D (interleave D e))"
  then have k: "k < ceil_div (length e) D * D"
    by (simp add: length_deinterleave length_interleave)
  have "deinterleave D (interleave D e) ! k =
      interleave D e ! (interleave_index D (ceil_div (length e) D) k)"
    using D length_interleave k by (rule deinterleave_nth)
  also have "\<dots> = (if k < length e then e ! k else 0)"
    using D k by (rule interleave_nth)
  also have "\<dots> = (e @ replicate (ceil_div (length e) D * D - length e) 0) ! k"
    using k by (simp add: nth_append)
  finally show "deinterleave D (interleave D e) ! k =
      (e @ replicate (ceil_div (length e) D * D - length e) 0) ! k" .
qed

lemma and_mask_bit: "(b :: byte) AND push_bit n 1 \<noteq> 0 \<longleftrightarrow> bit b n"
  by (simp add: push_bit_of_1 and_exp_eq_0_iff_not_bit)

lemma votes_bits:
  "votes b1 b2 b3 n = (if bit b1 n then 1 else 0) + (if bit b2 n then 1 else 0) +
     (if bit b3 n then 1 else 0)"
  by (simp only: votes_def Let_def and_mask_bit)

lemma bit_mask_byte: "bit (push_bit k 1 :: byte) n \<longleftrightarrow> n = k \<and> k < 8"
  by (auto simp add: bit_simps)

lemma bit_exp_byte: "bit (2 ^ k :: byte) n \<longleftrightarrow> n = k \<and> k < 8"
  by (auto simp add: bit_simps)

lemma vote_step_fst:
  "k < 8 \<Longrightarrow> bit (fst (vote_step b1 b2 b3 k rc)) n \<longleftrightarrow>
     bit (fst rc) n \<or> (n = k \<and> 2 \<le> votes b1 b2 b3 k)"
  by (auto simp add: vote_step_def bit_or_iff bit_exp_byte)

lemma vote_step_snd:
  "snd (vote_step b1 b2 b3 k rc) = snd rc + (if votes b1 b2 b3 k = 2 then 1 else 0)"
proof -
  have "votes b1 b2 b3 k \<le> 3" by (simp add: votes_bits)
  then show ?thesis by (auto simp add: vote_step_def)
qed

lemma fold_upt_Suc: "fold f [0..<Suc k] init = f k (fold f [0..<k] init)"
  by simp

lemma vote_fold_fst:
  "k \<le> 8 \<Longrightarrow> bit (fst (fold (vote_step b1 b2 b3) [0..<k] (0, 0))) n \<longleftrightarrow>
     n < k \<and> 2 \<le> votes b1 b2 b3 n"
proof (induction k)
  case 0
  then show ?case by simp
next
  case (Suc k)
  then have IH: "bit (fst (fold (vote_step b1 b2 b3) [0..<k] (0, 0))) n \<longleftrightarrow>
     n < k \<and> 2 \<le> votes b1 b2 b3 n" and k: "k < 8"
    by simp_all
  show ?case
    unfolding fold_upt_Suc vote_step_fst [OF k] IH by (auto simp add: less_Suc_eq)
qed

lemma vote_fold_snd:
  "snd (fold (vote_step b1 b2 b3) [0..<k] (0, 0)) =
     length (filter (\<lambda>n. votes b1 b2 b3 n = 2) [0..<k])"
proof (induction k)
  case 0
  then show ?case by simp
next
  case (Suc k)
  show ?case
    unfolding fold_upt_Suc vote_step_snd Suc by simp
qed

lemma majority_vote_bit:
  "bit (fst (majority_vote b1 b2 b3)) n \<longleftrightarrow> n < 8 \<and> 2 \<le> votes b1 b2 b3 n"
  unfolding majority_vote_def by (rule vote_fold_fst) simp

lemma majority_vote_count:
  "snd (majority_vote b1 b2 b3) = card {n. n < 8 \<and> votes b1 b2 b3 n = 2}"
proof -
  have "{n. votes b1 b2 b3 n = 2} \<inter> set [0..<8] = {n. n < 8 \<and> votes b1 b2 b3 n = 2}"
    by auto
  then show ?thesis
    unfolding majority_vote_def vote_fold_snd
    by (simp add: distinct_length_filter)
qed

lemma majority_vote_same: "majority_vote x x x = (x, 0)"
proof (rule prod_eqI)
  have "votes x x x n = (if bit x n then 3 else 0)" for n
    by (simp add: votes_bits)
  then have v: "2 \<le> votes x x x n \<longleftrightarrow> bit x n" "votes x x x n \<noteq> 2" for n
    by simp_all
  show "fst (majority_vote x x x) = fst (x, 0 :: nat)"
    by (rule bit_eqI) (auto simp add: majority_vote_bit v dest: bit_imp_le_length)
  show "snd (majority_vote x x x) = snd (x, 0 :: nat)"
    by (simp add: majority_vote_count v)
qed

lemma bit_flip_byte: "m < 8 \<Longrightarrow> bit ((x :: byte) XOR push_bit m 1) n \<longleftrightarrow> (bit x n \<noteq> (n = m))"
  by (auto simp add: bit_xor_iff bit_exp_byte)

lemma bit_flip_exp: "m < 8 \<Longrightarrow> bit ((x :: byte) XOR 2 ^ m) n \<longleftrightarrow> (bit x n \<noteq> (n = m))"
  by (auto simp add: bit_xor_iff bit_exp_byte)

lemma votes_flipped:
  assumes "m < 8"
    and "(b1, b2, b3) = (x XOR push_bit m 1, x, x) \<or> (b1, b2, b3) = (x, x XOR push_bit m 1, x)
       \<or> (b1, b2, b3) = (x, x, x XOR push_bit m 1)"
  shows "votes b1 b2 b3 n = (if n = m then (if bit x m then 2 else 1) else if bit x n then 3 else 0)"
  using assms by (auto simp add: votes_bits bit_flip_exp)

lemma majority_vote_flipped:
  assumes "m < 8"
    and "(b1, b2, b3) = (x XOR push_bit m 1, x, x) \<or> (b1, b2, b3) = (x, x XOR push_bit m 1, x)
       \<or> (b1, b2, b3) = (x, x, x XOR push_bit m 1)"
  shows "majority_vote b1 b2 b3 = (x, if bit x m then 1 else 0)"
proof (rule prod_eqI)
  note v = votes_flipped [OF assms]
  show "fst (majority_vote b1 b2 b3) = fst (x, if bit x m then 1 else 0 :: nat)"
    using assms(1) by (intro bit_eqI) (auto simp add: majority_vote_bit v dest: bit_imp_le_length)
  have "{n. n < 8 \<and> votes b1 b2 b3 n = 2} = (if bit x m then {m} else {})"
    using assms(1) by (auto simp add: v)
  then show "snd (majority_vote b1 b2 b3) = snd (x, if bit x m then 1 else 0 :: nat)"
    by (simp add: majority_vote_count)
qed

lemma length_expand3: "length (expand3 b) = 3 * length b"
  by (induction b) (simp_all add: expand3_def)

lemma expand3_Cons: "expand3 (x # xs) = x # x # x # expand3 xs"
  by (simp add: expand3_def)

lemma expand3_nth: "i < length b \<Longrightarrow> j < 3 \<Longrightarrow> expand3 b ! (i * 3 + j) = b ! i"
proof (induction b arbitrary: i)
  case Nil
  then show ?case by simp
next
  case (Cons x xs)
  show ?case
  proof (cases i)
    case 0
    have "j = 0 \<or> j = 1 \<or> j = 2" using Cons.prems(2) by auto
    then show ?thesis using 0 by (auto simp add: expand3_Cons)
  next
    case (Suc i')
    have "Suc i' * 3 + j = Suc (Suc (Suc (i' * 3 + j)))" by simp
    then show ?thesis
      using Suc Cons.prems Cons.IH [of i'] by (simp add: expand3_Cons)
  qed
qed

lemma deinterleave_applyFEC: "0 < D \<Longrightarrow> deinterleave D (applyFEC D b) = padded D b"
  by (simp add: applyFEC_def padded_def deinterleave_interleave length_expand3)

lemma length_padded: "0 < D \<Longrightarrow> length (padded D b) = ceil_div (3 * length b) D * D"
  using ceil_div_mult [of D "3 * length b"] by (simp add: padded_def length_expand3)

lemma padded_nth:
  assumes "0 < D" and "i < length (padded D b) div 3" and "j < 3"
  shows "padded D b ! (i * 3 + j) = (if i < length b then b ! i else 0)"
proof (cases "i < length b")
  case True
  then have "i * 3 + j < length (expand3 b)" using assms(3) by (simp add: length_expand3)
  then show ?thesis
    using True assms(3) by (simp add: padded_def nth_append expand3_nth)
next
  case False
  then have ge: "\<not> i * 3 + j < length (expand3 b)" by (simp add: length_expand3)
  have "i * 3 + j < length (padded D b)" using assms(2,3) by linarith
  then have "i * 3 + j - length (expand3 b) <
      ceil_div (3 * length b) D * D - 3 * length b"
    using ge by (simp add: padded_def length_expand3)
  then show ?thesis
    using False ge by (simp add: padded_def nth_append)
qed

lemma decode_byte_padded:
  assumes "0 < D" and "i < length (padded D b) div 3"
  shows "decode_byte (padded D b) i = (if i < length b then b ! i else 0, 0)"
  using padded_nth [OF assms, of 0] padded_nth [OF assms, of 1] padded_nth [OF assms, of 2]
  by (simp add: decode_byte_def majority_vote_same)

lemma padded_bytes: "0 < D \<Longrightarrow> length b \<le> length (padded D b) div 3"
  using ceil_div_mult [of D "3 * length b"] by (simp add: length_padded)

lemma map_prefix_default:
  "length b \<le> n \<Longrightarrow> map (\<lambda>i. if i < length b then b ! i else z) [0..<n] = b @ replicate (n - length b) z"
  by (rule nth_equalityI) (auto simp add: nth_append)

lemma decodeFEC_applyFEC:
  assumes D: "0 < D"
  shows "decodeFEC D (applyFEC D b) st =
     (b @ replicate (ceil_div (3 * length b) D * D div 3 - length b) 0, st)"
proof -
  let ?d = "padded D b"
  let ?n = "length ?d div 3"
  have fst_eq: "map (\<lambda>i. fst (decode_byte ?d i)) [0..<?n] =
      map (\<lambda>i. if i < length b then b ! i else 0) [0..<?n]"
    by (rule map_cong) (simp_all add: decode_byte_padded [OF D])
  have snd_eq: "map (\<lambda>i. snd (decode_byte ?d i)) [0..<?n] = map (\<lambda>i. 0) [0..<?n]"
    by (rule map_cong) (simp_all add: decode_byte_padded [OF D])
  have "decodeFEC D (applyFEC D b) st =
      (map (\<lambda>i. if i < length b then b ! i else 0) [0..<?n], st)"
    by (simp add: decodeFEC_def deinterleave_applyFEC [OF D] Let_def fst_eq snd_eq)
  then show ?thesis
    using padded_bytes [OF D, of b] by (simp add: map_prefix_default length_padded [OF D])
qed

lemma length_applyFEC: "length (applyFEC D b) = ceil_div (3 * length b) D * D"
  by (simp add: applyFEC_def length_interleave length_expand3)

lemma length_flip_bit_at: "length (flip_bit_at p m buf) = length buf"
  by (simp add: flip_bit_at_def)

text \<open>Flipping a bit of the encoded stream flips it at one index of the de-interleaved one.\<close>

lemma deinterleave_flip:
  assumes D: "0 < D" and k: "k < 3 * length b"
  shows "deinterleave D (flip_bit_at (interleave_index D (ceil_div (3 * length b) D) k) m (applyFEC D b)) =
         flip_bit_at k m (padded D b)"
proof (rule nth_equalityI)
  define R where "R = ceil_div (3 * length b) D"
  define enc where "enc = applyFEC D b"
  have len: "length enc = R * D" by (simp add: enc_def R_def length_applyFEC)
  have kM: "k < R * D" using k ceil_div_mult [OF D, of "3 * length b"] by (simp add: R_def)
  have kR: "k div D < R" using kM by (rule div_less_grid)
  have pM: "interleave_index D R k < R * D" using D kR by (rule interleave_index_less)
  show "length (deinterleave D (flip_bit_at (interleave_index D R k) m enc)) =
      length (flip_bit_at k m (padded D b))"
    by (simp add: length_deinterleave length_flip_bit_at len length_padded [OF D] R_def)
  fix q
  assume "q < length (deinterleave D (flip_bit_at (interleave_index D R k) m enc))"
  then have qM: "q < R * D" by (simp add: length_deinterleave length_flip_bit_at len)
  have qR: "q div D < R" using qM by (rule div_less_grid)
  have same: "interleave_index D R q = interleave_index D R k \<longleftrightarrow> q = k"
    using inj_on_eq_iff [OF interleave_index_inj, of q D R k] qR kR by simp
  have clean: "padded D b ! q = enc ! (interleave_index D R q)" if "q < R * D" for q
    using deinterleave_nth [OF D len that] by (simp add: enc_def deinterleave_applyFEC [OF D])
  have "deinterleave D (flip_bit_at (interleave_index D R k) m enc) ! q =
      flip_bit_at (interleave_index D R k) m enc ! (interleave_index D R q)"
    using D _ qM by (rule deinterleave_nth) (simp add: length_flip_bit_at len)
  also have "\<dots> = flip_bit_at k m (padded D b) ! q"
    using pM qM kM same clean [OF qM] clean [OF kM]
    by (auto simp add: flip_bit_at_def len length_padded [OF D] R_def nth_list_update)
  finally show "deinterleave D (flip_bit_at (interleave_index D R k) m enc) ! q =
      flip_bit_at k m (padded D b) ! q" .
qed

lemma decode_byte_flipped:
  assumes D: "0 < D" and i: "i < length b" and j: "j < 3" and m: "m < 8"
    and i': "i' < length (padded D b) div 3"
  shows "decode_byte (flip_bit_at (i * 3 + j) m (padded D b)) i' =
     (if i' < length b then b ! i' else 0, if i' = i \<and> bit (b ! i) m then 1 else 0)"
proof (cases "i' = i")
  case False
  have ne: "i' * 3 + j' \<noteq> i * 3 + j" if "j' < 3" for j'
    using that j False by presburger
  have keep: "flip_bit_at (i * 3 + j) m (padded D b) ! (i' * 3 + j') = padded D b ! (i' * 3 + j')"
    if "j' < 3" for j'
    using ne [OF that] by (simp add: flip_bit_at_def)
  from keep [of 0] keep [of 1] keep [of 2]
  have "decode_byte (flip_bit_at (i * 3 + j) m (padded D b)) i' = decode_byte (padded D b) i'"
    by (simp add: decode_byte_def)
  then show ?thesis
    using False by (simp add: decode_byte_padded [OF D i'])
next
  case True
  have in_range: "i * 3 + j < length (padded D b)"
    using i' True j by linarith
  define x where "x = b ! i"
  have orig: "padded D b ! (i * 3 + j') = x" if "j' < 3" for j'
    using padded_nth [OF D _ that, of i b] i' True i by (simp add: x_def)
  have at: "flip_bit_at (i * 3 + j) m (padded D b) ! (i * 3 + j') =
      (if j' = j then x XOR push_bit m 1 else x)" if "j' < 3" for j'
    using that in_range orig [OF that] orig [OF j]
    by (simp add: flip_bit_at_def nth_list_update)
  have "j = 0 \<or> j = 1 \<or> j = 2" using j by auto
  then have "decode_byte (flip_bit_at (i * 3 + j) m (padded D b)) i =
      (x, if bit x m then 1 else 0)"
    unfolding decode_byte_def
    using at [of 0] at [of 1] at [of 2]
    by (intro majority_vote_flipped [OF m]) auto
  then show ?thesis
    using True i by (simp add: x_def)
qed

lemma sum_list_single:
  "i < n \<Longrightarrow> sum_list (map (\<lambda>i'. if i' = i \<and> P then c else 0) [0..<n]) = (if P then c else (0 :: nat))"
  by (simp add: interv_sum_list_conv_sum_set_nat sum.delta)

lemma decodeFEC_flipped:
  assumes D: "0 < D" and i: "i < length b" and j: "j < 3" and m: "m < 8"
  shows "decodeFEC D (flip_bit_at (copy_position D (length b) i j) m (applyFEC D b)) st =
     (b @ replicate (ceil_div (3 * length b) D * D div 3 - length b) 0,
      st\<lparr>correctedErrors := correctedErrors st + (if bit (b ! i) m then 1 else 0)\<rparr>)"
proof -
  let ?d = "flip_bit_at (i * 3 + j) m (padded D b)"
  let ?n = "length (padded D b) div 3"
  have k: "3 * i + j < 3 * length b" using i j by simp
  have d: "deinterleave D (flip_bit_at (copy_position D (length b) i j) m (applyFEC D b)) = ?d"
    unfolding copy_position_def deinterleave_flip [OF D k] by (simp add: mult.commute)
  have i_n: "i < ?n" using i padded_bytes [OF D, of b] by simp
  have fst_eq: "map (\<lambda>i'. fst (decode_byte ?d i')) [0..<?n] =
      map (\<lambda>i'. if i' < length b then b ! i' else 0) [0..<?n]"
    by (rule map_cong) (simp_all add: decode_byte_flipped [OF D i j m])
  have snd_eq: "map (\<lambda>i'. snd (decode_byte ?d i')) [0..<?n] =
      map (\<lambda>i'. if i' = i \<and> bit (b ! i) m then 1 else 0) [0..<?n]"
    by (rule map_cong) (simp_all add: decode_byte_flipped [OF D i j m])
  have "decodeFEC D (flip_bit_at (copy_position D (length b) i j) m (applyFEC D b)) st =
      (map (\<lambda>i'. if i' < length b then b ! i' else 0) [0..<?n],
       st\<lparr>correctedErrors := correctedErrors st + (if bit (b ! i) m then 1 else 0)\<rparr>)"
    unfolding decodeFEC_def d Let_def length_flip_bit_at fst_eq snd_eq
    by (simp add: sum_list_single [OF i_n])
  then show ?thesis
    using padded_bytes [OF D, of b] by (simp add: map_prefix_default length_padded [OF D])
qed

lemma replicate_8: "replicate 8 (0 :: byte) = [0, 0, 0, 0, 0, 0, 0, 0]"
  by (simp add: numeral_eq_Suc)

text \<open>
  C3, as stated, fails on the one-byte buffer \<open>[0xAA]\<close>: its three copies are padded to a
  row of eight bytes, and \<^verbatim>\<open>decodeFEC\<close> returns two bytes.
\<close>

theorem decodeFEC_applyFEC_counterexample:
  "fst (decodeFEC 8 (applyFEC 8 [0xAA]) initial_stats) = [0xAA, 0]
   \<and> fst (decodeFEC 8 (applyFEC 8 [0xAA]) initial_stats) \<noteq> [0xAA]"
  by (simp add: decodeFEC_applyFEC ceil_div_def)

text \<open>
  C3, amended. For a buffer \<open>b\<close> of \<open>N\<close> bytes and interleaving depth \<open>D > 0\<close>,
  \<^verbatim>\<open>decodeFEC(applyFEC(b))\<close> is \<open>b\<close> followed by \<open>\<lfloor>D \<lceil>3N / D\<rceil> / 3\<rfloor> - N\<close> zero bytes, and no
  corrected error is counted: the padding of the grid is decoded too. The result is \<open>b\<close>
  itself exactly when fewer than three padding bytes were added.
\<close>

theorem decodeFEC_applyFEC_padding:
  "0 < depth \<Longrightarrow>
   decodeFEC depth (applyFEC depth b) st =
     (b @ replicate (ceil_div (3 * length b) depth * depth div 3 - length b) 0, st)
   \<and> (fst (decodeFEC depth (applyFEC depth b) st) = b \<longleftrightarrow>
        ceil_div (3 * length b) depth * depth < 3 * length b + 3)"
proof -
  assume D: "0 < depth"
  have "ceil_div (3 * length b) depth * depth div 3 - length b = 0 \<longleftrightarrow>
      ceil_div (3 * length b) depth * depth < 3 * length b + 3"
    by linarith
  then show ?thesis
    by (simp add: decodeFEC_applyFEC [OF D])
qed

theorem decodeFEC_applyFEC_padding_witness:
  "(0 :: nat) < 8
   \<and> decodeFEC 8 (applyFEC 8 [1, 2, 3]) initial_stats = ([1, 2, 3, 0, 0], initial_stats)
   \<and> decodeFEC 8 (applyFEC 8 [0xAA, 0x55]) initial_stats = ([0xAA, 0x55], initial_stats)"
proof -
  have "replicate 2 (0 :: byte) = [0, 0]"
    by (simp add: numeral_eq_Suc)
  then show ?thesis
    using decodeFEC_applyFEC_padding [of 8 "[1, 2, 3]" initial_stats]
      decodeFEC_applyFEC_padding [of 8 "[0xAA, 0x55]" initial_stats]
    by (simp add: ceil_div_def)
qed

lemma upt_6: "[0..<6] = [0, 1, 2, 3, 4, 5]"
  by code_simp

lemma applyFEC_AA_55: "applyFEC 8 [0xAA, 0x55] = [0xAA, 0xAA, 0xAA, 0x55, 0x55, 0x55, 0, 0]"
  by (simp add: applyFEC_def expand3_def interleave_def interleave_index_def ceil_div_def
      upt_6 replicate_8)

text \<open>
  C4. On the payload \<open>[0xAA, 0x55]\<close> the encoded stream is \<open>AA AA AA 55 55 55 00 00\<close>
  and decodes to the two bytes again. Flipping bit 0 of the first copy of \<open>0xAA\<close>, a bit
  that is 0 in the original, gives \<open>AB AA AA 55 55 55 00 00\<close>: \<^verbatim>\<open>decodeFEC\<close> still returns
  \<open>[0xAA, 0x55]\<close>, but the counter of corrected errors is unchanged, because the vote on
  that bit is one to two and the counter is raised only inside the branch for at least
  two votes. Flipping bit 1 of the same copy, a bit that is 1 in the original, gives
  \<open>A8 AA AA 55 55 55 00 00\<close>, the same bytes, and the counter raised by one.
\<close>

theorem decodeFEC_flip_0_to_1_not_counted:
  "applyFEC 8 [0xAA, 0x55] = [0xAA, 0xAA, 0xAA, 0x55, 0x55, 0x55, 0, 0]
   \<and> flip_bit_at (copy_position 8 (length [0xAA :: byte, 0x55]) 0 0) 0 (applyFEC 8 [0xAA, 0x55]) =
       [0xAB, 0xAA, 0xAA, 0x55, 0x55, 0x55, 0, 0]
   \<and> decodeFEC 8 [0xAB, 0xAA, 0xAA, 0x55, 0x55, 0x55, 0, 0] initial_stats =
       ([0xAA, 0x55], initial_stats)
   \<and> flip_bit_at (copy_position 8 (length [0xAA :: byte, 0x55]) 0 0) 1 (applyFEC 8 [0xAA, 0x55]) =
       [0xA8, 0xAA, 0xAA, 0x55, 0x55, 0x55, 0, 0]
   \<and> decodeFEC 8 [0xA8, 0xAA, 0xAA, 0x55, 0x55, 0x55, 0, 0] initial_stats =
       ([0xAA, 0x55], initial_stats\<lparr>correctedErrors := 1\<rparr>)"
proof (intro conjI)
  show "applyFEC 8 [0xAA, 0x55] = [0xAA, 0xAA, 0xAA, 0x55, 0x55, 0x55, 0, 0]"
    by (rule applyFEC_AA_55)
  show f0: "flip_bit_at (copy_position 8 (length [0xAA :: byte, 0x55]) 0 0) 0 (applyFEC 8 [0xAA, 0x55]) =
       [0xAB, 0xAA, 0xAA, 0x55, 0x55, 0x55, 0, 0]"
    unfolding applyFEC_AA_55
    by (simp add: flip_bit_at_def copy_position_def interleave_index_def ceil_div_def)
  show f1: "flip_bit_at (copy_position 8 (length [0xAA :: byte, 0x55]) 0 0) 1 (applyFEC 8 [0xAA, 0x55]) =
       [0xA8, 0xAA, 0xAA, 0x55, 0x55, 0x55, 0, 0]"
    unfolding applyFEC_AA_55
    by (simp add: flip_bit_at_def copy_position_def interleave_index_def ceil_div_def)
  have "decodeFEC 8 (flip_bit_at (copy_position 8 (length [0xAA :: byte, 0x55]) 0 0) 0
      (applyFEC 8 [0xAA, 0x55])) initial_stats = ([0xAA, 0x55], initial_stats)"
    using decodeFEC_flipped [of 8 0 "[0xAA, 0x55]" 0 0 initial_stats]
    by (simp add: ceil_div_def)
  then show "decodeFEC 8 [0xAB, 0xAA, 0xAA, 0x55, 0x55, 0x55, 0, 0] initial_stats =
       ([0xAA, 0x55], initial_stats)"
    by (simp only: f0)
  have "decodeFEC 8 (flip_bit_at (copy_position 8 (length [0xAA :: byte, 0x55]) 0 0) 1
      (applyFEC 8 [0xAA, 0x55])) initial_stats =
      ([0xAA, 0x55], initial_stats\<lparr>correctedErrors := 1\<rparr>)"
    using decodeFEC_flipped [of 8 0 "[0xAA, 0x55]" 0 1 initial_stats]
    by (simp add: ceil_div_def initial_stats_def)
  then show "decodeFEC 8 [0xA8, 0xAA, 0xAA, 0x55, 0x55, 0x55, 0, 0] initial_stats =
       ([0xAA, 0x55], initial_stats\<lparr>correctedErrors := 1\<rparr>)"
    by (simp only: f1)
qed

section \<open>Reassembly of fragments\<close>

lemmas reassemble_eval = reassembleData_def fragment_0_def fragment_1_def fragment_2_def Let_def

text \<open>
  C6. With all three fragments, given in any order, the message is reassembled in sequence
  order. With the middle fragment missing, \<^verbatim>\<open>reassembleData\<close> still finds a first and a
  last fragment and reports the two remaining payloads as a complete message of two
  fragments: no error is produced.
\<close>

theorem reassembleData_missing_middle:
  "reassembleData [fragment_2, fragment_0, fragment_1] = Complete [0x61, 0x62, 0x63] 3
   \<and> reassembleData [fragment_0, fragment_2] = Complete [0x61, 0x63] 2"
  by (simp add: reassemble_eval)

section \<open>Symbol packing\<close>

lemma bits_value_3: "bits_value [a, b, c] = (if a then 4 else 0) + (if b then 2 else 0) + (if c then 1 else 0)"
  by (simp add: bits_value_def)

lemma and_7_take_bit: "(x :: int32) AND 7 = take_bit 3 x"
proof -
  have "(7 :: int32) = mask 3" by (simp add: mask_eq_exp_minus_1)
  then show ?thesis by (simp add: take_bit_eq_mask)
qed

lemma mod_8_bits:
  "(m :: nat) mod 8 = (if odd (m div 4) then 4 else 0) + (if odd (m div 2) then 2 else 0) +
     (if odd m then 1 else 0)"
proof -
  have a: "m mod 8 = 2 * (m div 2 mod 4) + m mod 2"
    using mod_mult2_eq [of m 2 4] by simp
  have b: "m div 2 mod 4 = 2 * (m div 2 div 2 mod 2) + m div 2 mod 2"
    using mod_mult2_eq [of "m div 2" 2 2] by simp
  have c: "m div 2 div 2 = m div 4"
    by (simp add: div_mult2_eq [symmetric])
  have d: "x mod 2 = (if odd x then 1 else 0)" for x :: nat
    by (simp add: odd_iff_mod_2_eq_one)
  show ?thesis
    unfolding a b c d by simp
qed

lemma unat_and_7: "unat ((x :: int32) AND 7) = bits_value [bit x 2, bit x 1, bit x 0]"
proof -
  have "unat (take_bit 3 x) = take_bit 3 (unat x)"
    by (rule unsigned_take_bit_eq)
  also have "\<dots> = unat x mod 2 ^ 3"
    by (rule take_bit_eq_mod)
  finally have "unat (x AND 7) = unat x mod 8"
    by (simp only: and_7_take_bit) simp
  moreover have "bit x k \<longleftrightarrow> bit (unat x) k" for k
    by (simp add: bit_unsigned_iff)
  then have "bit x k \<longleftrightarrow> odd (unat x div 2 ^ k)" for k
    by (simp only: bit_iff_odd)
  from this [of 0] this [of 1] this [of 2]
  have "bit x 0 \<longleftrightarrow> odd (unat x)" "bit x 1 \<longleftrightarrow> odd (unat x div 2)" "bit x 2 \<longleftrightarrow> odd (unat x div 4)"
    by simp_all
  ultimately show ?thesis
    by (simp only: bits_value_3 mod_8_bits)
qed

lemma symbol_bits:
  "s \<le> 7 \<Longrightarrow> unat (signed_drop_bit s (w :: int32) AND 7) = bits_value [bit w (s + 2), bit w (s + 1), bit w s]"
  by (auto simp add: unat_and_7 bit_signed_drop_bit_iff)

lemma last_symbol_1: "unat (push_bit 2 (w :: int32) AND 7) = bits_value [bit w 0, False, False]"
  by (simp only: unat_and_7 bit_push_bit_iff) simp

lemma last_symbol_2: "unat (push_bit 1 (w :: int32) AND 7) = bits_value [bit w 1, bit w 0, False]"
  by (simp only: unat_and_7 bit_push_bit_iff) simp

lemma last_symbol_2_mult: "unat ((w :: int32) * 2 AND 7) = bits_value [bit w (Suc 0), bit w 0, False]"
  using last_symbol_2 [of w] by simp

lemma shifted_in_bits:
  "k < 32 \<Longrightarrow> bit (push_bit 8 (buf :: int32) OR ucast (byte :: byte)) k \<longleftrightarrow>
     (if k < 8 then bit byte k else bit buf (k - 8))"
  by (auto simp add: bit_or_iff bit_push_bit_iff bit_ucast_iff dest: bit_imp_le_length)

lemma drain_8: "drain (w, 8, syms) =
    (w, 2, syms @ [unat (signed_drop_bit 5 w AND 7), unat (signed_drop_bit 2 w AND 7)])"
  by (simp add: drain.simps)

lemma drain_9: "drain (w, 9, syms) =
    (w, 0, syms @ [unat (signed_drop_bit 6 w AND 7), unat (signed_drop_bit 3 w AND 7),
      unat (signed_drop_bit 0 w AND 7)])"
  by (simp add: drain.simps)

lemma drain_10: "drain (w, 10, syms) =
    (w, 1, syms @ [unat (signed_drop_bit 7 w AND 7), unat (signed_drop_bit 4 w AND 7),
      unat (signed_drop_bit 1 w AND 7)])"
  by (simp add: drain.simps)

lemma pad_right_full: "pad_right [a, b, c] = [a, b, c]"
  by (simp add: pad_right_def)

lemma pad_right_1: "pad_right [a] = [a, False, False]"
  by (simp add: pad_right_def numeral_eq_Suc)

lemma pad_right_2: "pad_right [a, b] = [a, b, False]"
  by (simp add: pad_right_def)

lemma pack_from_state:
  "n \<le> 2 \<Longrightarrow> pad_remaining (fold push_byte data (buf, n, syms)) =
     syms @ map (\<lambda>g. bits_value (pad_right g)) (groups_of_3 (pending_bits buf n @ bit_stream data))"
proof (induction data arbitrary: buf n syms)
  case Nil
  then have "n = 0 \<or> n = 1 \<or> n = 2" by auto
  then show ?case
    by (auto simp add: pad_remaining_def pending_bits_def bit_stream_def last_symbol_1 last_symbol_2_mult
        pad_right_1 pad_right_2)
next
  case (Cons byte rest)
  define w where "w = push_bit 8 buf OR ucast byte"
  have bits: "bit w k \<longleftrightarrow> (if k < 8 then bit byte k else bit buf (k - 8))" if "k < 32" for k
    unfolding w_def using that by (rule shifted_in_bits)
  have stream: "bit_stream (byte # rest) =
      [bit byte 7, bit byte 6, bit byte 5, bit byte 4, bit byte 3, bit byte 2, bit byte 1,
       bit byte 0] @ bit_stream rest"
    by (simp add: bit_stream_def byte_bits_def)
  from Cons.prems have "n = 0 \<or> n = 1 \<or> n = 2" by auto
  then show ?case
  proof (elim disjE)
    assume n: "n = 0"
    have "pad_remaining (fold push_byte (byte # rest) (buf, n, syms)) =
        pad_remaining (fold push_byte rest (w, 2, syms @ [unat (signed_drop_bit 5 w AND 7),
          unat (signed_drop_bit 2 w AND 7)]))"
      by (simp add: n push_byte_def w_def drain_8)
    also have "\<dots> = (syms @ [unat (signed_drop_bit 5 w AND 7), unat (signed_drop_bit 2 w AND 7)]) @
        map (\<lambda>g. bits_value (pad_right g)) (groups_of_3 (pending_bits w 2 @ bit_stream rest))"
      by (rule Cons.IH) simp
    finally show ?thesis
      by (simp add: n stream pending_bits_def symbol_bits bits pad_right_full)
  next
    assume n: "n = 1"
    have "pad_remaining (fold push_byte (byte # rest) (buf, n, syms)) =
        pad_remaining (fold push_byte rest (w, 0, syms @ [unat (signed_drop_bit 6 w AND 7),
          unat (signed_drop_bit 3 w AND 7), unat (signed_drop_bit 0 w AND 7)]))"
      by (simp add: n push_byte_def w_def drain_9)
    also have "\<dots> = (syms @ [unat (signed_drop_bit 6 w AND 7), unat (signed_drop_bit 3 w AND 7),
          unat (signed_drop_bit 0 w AND 7)]) @
        map (\<lambda>g. bits_value (pad_right g)) (groups_of_3 (pending_bits w 0 @ bit_stream rest))"
      by (rule Cons.IH) simp
    moreover have "unat (w AND 7) = bits_value [bit byte 2, bit byte (Suc 0), bit byte 0]"
      using unat_and_7 [of w] by (simp add: bits)
    ultimately show ?thesis
      by (simp add: n stream pending_bits_def symbol_bits bits pad_right_full)
  next
    assume n: "n = 2"
    have "pad_remaining (fold push_byte (byte # rest) (buf, n, syms)) =
        pad_remaining (fold push_byte rest (w, 1, syms @ [unat (signed_drop_bit 7 w AND 7),
          unat (signed_drop_bit 4 w AND 7), unat (signed_drop_bit 1 w AND 7)]))"
      by (simp add: n push_byte_def w_def drain_10)
    also have "\<dots> = (syms @ [unat (signed_drop_bit 7 w AND 7), unat (signed_drop_bit 4 w AND 7),
          unat (signed_drop_bit 1 w AND 7)]) @
        map (\<lambda>g. bits_value (pad_right g)) (groups_of_3 (pending_bits w 1 @ bit_stream rest))"
      by (rule Cons.IH) simp
    finally show ?thesis
      by (simp add: n stream pending_bits_def symbol_bits bits pad_right_full numeral_3_eq_3
          numeral_2_eq_2)
  qed
qed

lemma bytesToSymbols_3: "bytesToSymbols 3 data = packed_symbols pad_right data"
  using pack_from_state [of 0 data 0 "[]"]
  by (simp add: bytesToSymbols_def pad_remaining_def packed_symbols_def pending_bits_def)

lemma unat_ucast_byte: "unat (ucast (x :: byte) :: int32) = unat x"
proof -
  have "unat x < 2 ^ 8" using unsigned_less [of x, where ?'a = nat] by simp
  then have "unat x < 2 ^ 32" by simp
  then have "take_bit 32 (unat x) = unat x" by (rule take_bit_nat_eq_self)
  then show ?thesis by (simp add: unsigned_ucast_eq)
qed

lemma high_nibble: "unat (signed_drop_bit 4 (ucast (b :: byte) :: int32) AND 0x0F) = unat b div 16"
proof -
  have m: "(0x0F :: int32) = mask 4" by (simp add: mask_eq_exp_minus_1)
  have "signed_drop_bit 4 (ucast b :: int32) AND mask 4 = ucast (drop_bit 4 b)"
    by (rule bit_eqI) (auto simp add: bit_simps dest: bit_imp_le_length)
  then have "unat (signed_drop_bit 4 (ucast b :: int32) AND 0x0F) = unat (drop_bit 4 b)"
    by (simp only: m unat_ucast_byte)
  also have "\<dots> = drop_bit 4 (unat b)"
    by (rule unat_drop_bit_eq)
  also have "\<dots> = unat b div 2 ^ 4"
    by (rule drop_bit_eq_div)
  finally show ?thesis by simp
qed

lemma low_nibble: "unat ((ucast (b :: byte) :: int32) AND 0x0F) = unat b mod 16"
proof -
  have m: "(0x0F :: int32) = mask 4" by (simp add: mask_eq_exp_minus_1)
  have "(ucast b :: int32) AND mask 4 = ucast (take_bit 4 b)"
    by (rule bit_eqI) (auto simp add: bit_simps dest: bit_imp_le_length)
  then have "unat ((ucast b :: int32) AND 0x0F) = unat (take_bit 4 b)"
    by (simp only: m unat_ucast_byte)
  also have "\<dots> = take_bit 4 (unat b)"
    by (rule unsigned_take_bit_eq)
  also have "\<dots> = unat b mod 2 ^ 4"
    by (rule take_bit_eq_mod)
  finally show ?thesis by simp
qed

lemma bytesToSymbols_4:
  "bytesToSymbols 4 data = concat (map (\<lambda>b. [unat b div 16, unat b mod 16]) data)"
  by (simp add: bytesToSymbols_def high_nibble low_nibble)

text \<open>
  C7, as stated, fails on the single byte \<open>0xFF\<close>: its last two bits form the symbol 6
  (\<open>110\<close>, the zero on the right), where a group padded on the left would be 3 (\<open>011\<close>).
\<close>

theorem bytesToSymbols_left_pad_counterexample:
  "bytesToSymbols 3 [0xFF] = [7, 7, 6]
   \<and> packed_symbols pad_left [0xFF] = [7, 7, 3]
   \<and> bytesToSymbols 3 [0xFF] \<noteq> packed_symbols pad_left [0xFF]"
proof -
  have bits: "bit_stream [0xFF] = [True, True, True, True, True, True, True, True]"
    by (simp add: bit_stream_def byte_bits_def)
  have l: "packed_symbols pad_left [0xFF] = [7, 7, 3]"
    by (simp add: packed_symbols_def bits pad_left_def bits_value_def)
  have r: "bytesToSymbols 3 [0xFF] = [7, 7, 6]"
    by (simp add: bytesToSymbols_3 packed_symbols_def bits pad_right_def bits_value_def)
  show ?thesis
    by (simp add: l r)
qed

text \<open>
  C7, amended. With 16 frequencies every byte gives two symbols, the high nibble and then
  the low nibble, so \<open>0x3C\<close> gives 3 and 12. With 8 frequencies the bits of the bytes,
  most significant first and across byte boundaries, are cut into groups of three, each
  group a symbol; a last group of one or two bits is filled with zeros on the right.
\<close>

theorem bytesToSymbols_packing:
  "bytesToSymbols 4 data = concat (map (\<lambda>b. [unat b div 16, unat b mod 16]) data)
   \<and> bytesToSymbols 4 [0x3C] = [0x3, 0xC]
   \<and> bytesToSymbols 3 data = packed_symbols pad_right data"
  by (simp add: bytesToSymbols_4 bytesToSymbols_3)

section \<open>Slot assignment\<close>

lemma slot_index_less:
  "i < k \<Longrightarrow> 0 < n \<Longrightarrow> n * (i + 1) div (k + 1) < (n :: nat)"
proof -
  assume "i < k" "0 < n"
  then have "n * (i + 1) < n * (k + 1)" by simp
  then show ?thesis
    by (simp add: less_mult_imp_div_less)
qed

lemma assign_loop_length:
  "length (fst (assign_loop k i free acc)) = length acc + min (k - i) (length free)"
proof (induction k i free acc rule: assign_loop.induct)
  case (1 k i free acc)
  show ?case
  proof (cases "i < k \<and> 0 < length free")
    case True
    let ?idx = "length free * (i + 1) div (k + 1)"
    have idx: "?idx < length free" using True by (intro slot_index_less) simp_all
    have "length (fst (assign_loop k i free acc)) =
        length (fst (assign_loop k (i + 1) (take ?idx free @ drop (Suc ?idx) free) (acc @ [free ! ?idx])))"
      using True by (subst assign_loop.simps) (simp add: Let_def)
    also have "\<dots> = length (acc @ [free ! ?idx]) + min (k - (i + 1)) (length (take ?idx free @ drop (Suc ?idx) free))"
      by (rule "1.IH" [OF True refl refl])
    also have "\<dots> = length acc + min (k - i) (length free)"
      using True idx by auto
    finally show ?thesis .
  next
    case False
    then show ?thesis
      by (subst assign_loop.simps) auto
  qed
qed

lemma assign_loop_perm:
  "distinct (acc @ free) \<Longrightarrow>
   distinct (fst (assign_loop k i free acc) @ snd (assign_loop k i free acc)) \<and>
   set (fst (assign_loop k i free acc) @ snd (assign_loop k i free acc)) = set (acc @ free) \<and>
   set acc \<subseteq> set (fst (assign_loop k i free acc))"
proof (induction k i free acc rule: assign_loop.induct)
  case (1 k i free acc)
  show ?case
  proof (cases "i < k \<and> 0 < length free")
    case True
    let ?idx = "length free * (i + 1) div (k + 1)"
    let ?free' = "take ?idx free @ drop (Suc ?idx) free"
    let ?acc' = "acc @ [free ! ?idx]"
    define xs where "xs = take ?idx free"
    define ys where "ys = drop (Suc ?idx) free"
    define y where "y = free ! ?idx"
    have idx: "?idx < length free" using True by (intro slot_index_less) simp_all
    have fr: "free = xs @ y # ys"
      unfolding xs_def ys_def y_def using idx by (rule id_take_nth_drop)
    have "distinct (acc @ xs @ y # ys)"
      using "1.prems" unfolding fr .
    then have d: "distinct ((acc @ [y]) @ xs @ ys)"
      by auto
    have s: "set ((acc @ [y]) @ xs @ ys) = set (acc @ free)"
      unfolding fr by auto
    have unfold: "assign_loop k i free acc = assign_loop k (i + 1) ?free' ?acc'"
      using True by (subst assign_loop.simps) (simp add: Let_def)
    have IH: "distinct (fst (assign_loop k (i + 1) ?free' ?acc') @ snd (assign_loop k (i + 1) ?free' ?acc')) \<and>
       set (fst (assign_loop k (i + 1) ?free' ?acc') @ snd (assign_loop k (i + 1) ?free' ?acc')) = set (?acc' @ ?free') \<and>
       set ?acc' \<subseteq> set (fst (assign_loop k (i + 1) ?free' ?acc'))"
      using d by (intro "1.IH" [OF True refl refl]) (simp add: xs_def ys_def y_def)
    have s': "set (?acc' @ ?free') = set (acc @ free)"
      using s by (simp add: xs_def ys_def y_def)
    show ?thesis
      unfolding unfold using IH s' by auto
  next
    case False
    then have "assign_loop k i free acc = (acc, free)"
      by (subst assign_loop.simps) auto
    then show ?thesis
      using "1.prems" by simp
  qed
qed

lemma assign_loop_total_length:
  "length (fst (assign_loop k i free acc)) + length (snd (assign_loop k i free acc)) =
     length acc + length free"
proof (induction k i free acc rule: assign_loop.induct)
  case (1 k i free acc)
  show ?case
  proof (cases "i < k \<and> 0 < length free")
    case True
    let ?idx = "length free * (i + 1) div (k + 1)"
    let ?free' = "take ?idx free @ drop (Suc ?idx) free"
    let ?acc' = "acc @ [free ! ?idx]"
    have idx: "?idx < length free" using True by (intro slot_index_less) simp_all
    have unfold: "assign_loop k i free acc = assign_loop k (i + 1) ?free' ?acc'"
      using True by (subst assign_loop.simps) (simp add: Let_def)
    have "length (fst (assign_loop k (i + 1) ?free' ?acc')) +
        length (snd (assign_loop k (i + 1) ?free' ?acc')) = length ?acc' + length ?free'"
      by (rule "1.IH" [OF True refl refl])
    then show ?thesis
      unfolding unfold using idx by auto
  next
    case False
    then have "assign_loop k i free acc = (acc, free)"
      by (subst assign_loop.simps) auto
    then show ?thesis by simp
  qed
qed

lemma coordinator_step_fields:
  "frameNumber (fst (coordinator_step r (s, free, resp))) = frameNumber s"
  "slotsPerFrame (fst (coordinator_step r (s, free, resp))) = slotsPerFrame s"
  "deviceId (fst (coordinator_step r (s, free, resp))) = deviceId s"
  by (simp_all add: coordinator_step_def split: prod.splits)

lemma coordinator_step_responses:
  "snd (coordinator_step r (s, free, resp)) =
     (snd (assign_loop (numSlots r) 0 free []), resp @ serve (frameNumber s) free [r])"
  by (simp add: coordinator_step_def split: prod.splits)

lemma serve_append: "serve fn free (rs @ [r]) = serve fn free rs @ serve fn (fold (\<lambda>r free. snd (assign_loop (numSlots r) 0 free [])) rs free) [r]"
  by (induction rs arbitrary: free) simp_all

lemma fold_coordinator_responses:
  "snd (snd (fold coordinator_step reqs (s, free, resp))) = resp @ serve (frameNumber s) free reqs"
proof (induction reqs arbitrary: s free resp)
  case Nil
  then show ?case by simp
next
  case (Cons r rs)
  obtain s1 free1 resp1 where step: "coordinator_step r (s, free, resp) = (s1, free1, resp1)"
    by (cases "coordinator_step r (s, free, resp)") auto
  have fn: "frameNumber s1 = frameNumber s"
    using coordinator_step_fields(1) [of r s free resp] step by simp
  have rest: "free1 = snd (assign_loop (numSlots r) 0 free [])"
    "resp1 = resp @ serve (frameNumber s) free [r]"
    using coordinator_step_responses [of r s free resp] step by simp_all
  show ?case
    using Cons.IH [of s1 free1 resp1] by (simp add: step fn rest)
qed

lemma serve_requests: "map fst (serve fn free reqs) = reqs"
  by (induction reqs arbitrary: free) simp_all

lemma length_serve: "length (serve fn free reqs) = length reqs"
  by (induction reqs arbitrary: free) simp_all

lemma assign_loop_from_empty:
  assumes "distinct free"
  shows "distinct (fst (assign_loop k 0 free []))"
    and "distinct (snd (assign_loop k 0 free []))"
    and "set (fst (assign_loop k 0 free [])) \<inter> set (snd (assign_loop k 0 free [])) = {}"
    and "set (fst (assign_loop k 0 free [])) \<union> set (snd (assign_loop k 0 free [])) = set free"
  using assign_loop_perm [of "[]" free k 0] assms by auto

lemma serve_disjoint:
  "distinct free \<Longrightarrow>
   distinct (granted_slots (serve fn free reqs)) \<and> set (granted_slots (serve fn free reqs)) \<subseteq> set free"
proof (induction reqs arbitrary: free)
  case Nil
  then show ?case by (simp add: granted_slots_def)
next
  case (Cons r rs)
  note a = assign_loop_from_empty [OF Cons.prems, of "numSlots r"]
  have IH: "distinct (granted_slots (serve fn (snd (assign_loop (numSlots r) 0 free [])) rs)) \<and>
      set (granted_slots (serve fn (snd (assign_loop (numSlots r) 0 free [])) rs)) \<subseteq>
        set (snd (assign_loop (numSlots r) 0 free []))"
    using a(2) by (rule Cons.IH)
  show ?case
    using IH a by (auto simp add: granted_slots_def)
qed

lemma serve_counts:
  "j < length reqs \<Longrightarrow>
   length (granted (snd (serve fn free reqs ! j))) =
     min (numSlots (reqs ! j)) (length free - length (granted_slots (take j (serve fn free reqs))))
   \<and> snd (serve fn free reqs ! j) =
     (if granted (snd (serve fn free reqs ! j)) = [] then Failed ''No slots available''
      else Assigned (granted (snd (serve fn free reqs ! j))) fn)"
proof (induction reqs arbitrary: free j)
  case Nil
  then show ?case by simp
next
  case (Cons r rs)
  let ?res = "assign_loop (numSlots r) 0 free []"
  have len: "length (fst ?res) = min (numSlots r) (length free)"
    using assign_loop_length [of "numSlots r" 0 free "[]"] by simp
  show ?case
  proof (cases j)
    case 0
    then show ?thesis
      using len by (auto simp add: granted_slots_def min_def split: if_splits)
  next
    case (Suc j')
    then have j': "j' < length rs" using Cons.prems by simp
    have rest: "length (snd ?res) = length free - length (fst ?res)"
      using assign_loop_total_length [of "numSlots r" 0 free "[]"] by simp
    show ?thesis
      using Cons.IH [OF j', of "snd ?res"] rest
      by (auto simp add: Suc granted_slots_def)
  qed
qed

lemma remove_nth_filter:
  assumes "distinct free" and "idx < length free"
  shows "take idx free @ drop (Suc idx) free = filter (\<lambda>x. x \<noteq> free ! idx) free"
proof -
  define xs where "xs = take idx free"
  define ys where "ys = drop (Suc idx) free"
  define y where "y = free ! idx"
  have fr: "free = xs @ y # ys"
    unfolding xs_def ys_def y_def using assms(2) by (rule id_take_nth_drop)
  have "distinct (xs @ y # ys)" using assms(1) unfolding fr .
  then have "y \<notin> set xs" "y \<notin> set ys" by auto
  then have "filter (\<lambda>x. x \<noteq> y) xs = xs" "filter (\<lambda>x. x \<noteq> y) ys = ys"
    by (auto simp add: filter_id_conv)
  then have "filter (\<lambda>x. x \<noteq> y) (xs @ y # ys) = xs @ ys"
    by simp
  then have "filter (\<lambda>x. x \<noteq> y) free = xs @ ys"
    by (simp only: fr [symmetric])
  then show ?thesis
    unfolding xs_def ys_def y_def by (rule sym)
qed

lemma filter_drop_member:
  "y \<in> G \<Longrightarrow> filter (\<lambda>x. x \<notin> G) (filter (\<lambda>x. x \<noteq> y) xs) = filter (\<lambda>x. x \<notin> G) xs"
  by (induction xs) auto

lemma assign_loop_rest:
  "distinct (acc @ free) \<Longrightarrow>
   snd (assign_loop k i free acc) = filter (\<lambda>x. x \<notin> set (fst (assign_loop k i free acc))) free"
proof (induction k i free acc rule: assign_loop.induct)
  case (1 k i free acc)
  show ?case
  proof (cases "i < k \<and> 0 < length free")
    case True
    let ?idx = "length free * (i + 1) div (k + 1)"
    let ?free' = "take ?idx free @ drop (Suc ?idx) free"
    let ?acc' = "acc @ [free ! ?idx]"
    have idx: "?idx < length free" using True by (intro slot_index_less) simp_all
    have dfree: "distinct free" using "1.prems" by simp
    have free': "?free' = filter (\<lambda>x. x \<noteq> free ! ?idx) free"
      using dfree idx by (rule remove_nth_filter)
    have mem: "free ! ?idx \<in> set free" using idx by simp
    have d: "distinct (?acc' @ ?free')"
      using "1.prems" mem unfolding free' by auto
    have unfold: "assign_loop k i free acc = assign_loop k (i + 1) ?free' ?acc'"
      using True by (subst assign_loop.simps) (simp add: Let_def)
    have IH: "snd (assign_loop k (i + 1) ?free' ?acc') =
        filter (\<lambda>x. x \<notin> set (fst (assign_loop k (i + 1) ?free' ?acc'))) ?free'"
      using d by (rule "1.IH" [OF True refl refl])
    have "set ?acc' \<subseteq> set (fst (assign_loop k (i + 1) ?free' ?acc'))"
      using assign_loop_perm [OF d] by blast
    then have y: "free ! ?idx \<in> set (fst (assign_loop k (i + 1) ?free' ?acc'))"
      by auto
    have "filter (\<lambda>x. x \<notin> set (fst (assign_loop k (i + 1) ?free' ?acc')))
          (filter (\<lambda>x. x \<noteq> free ! ?idx) free) =
        filter (\<lambda>x. x \<notin> set (fst (assign_loop k (i + 1) ?free' ?acc'))) free"
      using y by (rule filter_drop_member)
    then have "filter (\<lambda>x. x \<notin> set (fst (assign_loop k (i + 1) ?free' ?acc'))) ?free' =
        filter (\<lambda>x. x \<notin> set (fst (assign_loop k (i + 1) ?free' ?acc'))) free"
      by (simp only: free' [symmetric])
    then show ?thesis
      unfolding unfold using IH by simp
  next
    case False
    then have "assign_loop k i free acc = (acc, free)"
      by (subst assign_loop.simps) auto
    moreover have "filter (\<lambda>x. x \<notin> set acc) free = free"
      using "1.prems" by (auto simp add: filter_id_conv)
    ultimately show ?thesis
      by simp
  qed
qed

lemma granted_serve_head:
  "granted (if 0 < length sl then Assigned sl fn else Failed reason) = sl"
  by simp

lemma serve_pool:
  "distinct free \<Longrightarrow> j < length reqs \<Longrightarrow>
   granted (snd (serve fn free reqs ! j)) =
     fst (assign_loop (numSlots (reqs ! j)) 0
           (filter (\<lambda>x. x \<notin> set (granted_slots (take j (serve fn free reqs)))) free) [])"
proof (induction reqs arbitrary: free j)
  case Nil
  then show ?case by simp
next
  case (Cons r rs)
  let ?res = "assign_loop (numSlots r) 0 free []"
  show ?case
  proof (cases j)
    case 0
    then show ?thesis
      by (simp add: granted_slots_def)
  next
    case (Suc j')
    then have j': "j' < length rs" using Cons.prems by simp
    have d1: "distinct (snd ?res)"
      using assign_loop_from_empty(2) [OF Cons.prems(1)] .
    have rest: "snd ?res = filter (\<lambda>x. x \<notin> set (fst ?res)) free"
      using assign_loop_rest [of "[]" free "numSlots r" 0] Cons.prems(1) by simp
    have "granted (snd (serve fn (snd ?res) rs ! j')) =
        fst (assign_loop (numSlots (rs ! j')) 0
           (filter (\<lambda>x. x \<notin> set (granted_slots (take j' (serve fn (snd ?res) rs)))) (snd ?res)) [])"
      using d1 j' by (rule Cons.IH)
    moreover have "filter (\<lambda>x. x \<notin> set (granted_slots (take j' (serve fn (snd ?res) rs)))) (snd ?res) =
        filter (\<lambda>x. x \<notin> set (granted_slots (take j (serve fn free (r # rs))))) free"
      unfolding Suc by (subst rest) (auto simp add: granted_slots_def intro: filter_cong)
    ultimately show ?thesis
      by (simp add: Suc)
  qed
qed

lemma getAvailableSlots_props:
  "distinct (getAvailableSlots s)"
  "set (getAvailableSlots s) = {0..<slotsPerFrame s} - set (table_slots (slotTable s))"
  by (auto simp add: getAvailableSlots_def)

lemma processSlotRequests_coordinator:
  "isCoordinator s \<Longrightarrow>
   snd (processSlotRequests s) =
     serve (frameNumber s) (getAvailableSlots s)
       (sort_key (\<lambda>r. - int (priority r)) (pendingSlotRequests s))"
proof -
  assume c: "isCoordinator s"
  let ?sorted = "sort_key (\<lambda>r. - int (priority r)) (pendingSlotRequests s)"
  obtain s' free' responses where
    f: "fold coordinator_step ?sorted (s, getAvailableSlots s, []) = (s', free', responses)"
    by (cases "fold coordinator_step ?sorted (s, getAvailableSlots s, [])") auto
  have "responses = serve (frameNumber s) (getAvailableSlots s) ?sorted"
    using fold_coordinator_responses [of ?sorted s "getAvailableSlots s" "[]"] f by simp
  then show ?thesis
    using c f by (simp add: processSlotRequests_def Let_def)
qed

lemma processSlotRequests_pending:
  "pendingSlotRequests (fst (processSlotRequests s)) = []"
  by (simp add: processSlotRequests_def contentionBasedSlotSelection_def Let_def split: prod.splits)

lemma upt_20: "[0..<20] = [0, 1, 2, 3, 4, 5, 6, 7, 8, 9, 10, 11, 12, 13, 14, 15, 16, 17, 18, 19]"
  by code_simp

lemma two_device_free: "getAvailableSlots two_device_requests = [0..<20]"
  by (simp add: getAvailableSlots_def two_device_requests_def releaseSlots_def
      becomeCoordinator_def new_mac_def table_delete_def table_slots_def SLOTS_PER_FRAME_def)

lemma two_device_fields:
  "isCoordinator two_device_requests" "frameNumber two_device_requests = 0"
  "pendingSlotRequests two_device_requests =
     [\<lparr>req_deviceId = ''A'', numSlots = 2, priority = 5\<rparr>,
      \<lparr>req_deviceId = ''B'', numSlots = 2, priority = 5\<rparr>]"
  by (simp_all add: two_device_requests_def releaseSlots_def becomeCoordinator_def new_mac_def)

lemma assign_first: "assign_loop 2 0 [0, 1, 2, 3, 4, 5, 6, 7, 8, 9, 10, 11, 12, 13, 14, 15, 16, 17, 18, 19] [] =
    ([6, 13], [0, 1, 2, 3, 4, 5, 7, 8, 9, 10, 11, 12, 14, 15, 16, 17, 18, 19])"
  by (simp add: assign_loop.simps Let_def)

lemma assign_second: "assign_loop 2 0 [0, 1, 2, 3, 4, 5, 7, 8, 9, 10, 11, 12, 14, 15, 16, 17, 18, 19] [] =
    ([7, 14], [0, 1, 2, 3, 4, 5, 8, 9, 10, 11, 12, 15, 16, 17, 18, 19])"
  by (simp add: assign_loop.simps Let_def)

lemma two_device_responses:
  "snd (processSlotRequests two_device_requests) =
     [(\<lparr>req_deviceId = ''A'', numSlots = 2, priority = 5\<rparr>, Assigned [6, 13] 0),
      (\<lparr>req_deviceId = ''B'', numSlots = 2, priority = 5\<rparr>, Assigned [7, 14] 0)]"
proof -
  have "snd (processSlotRequests two_device_requests) =
      serve 0 [0..<20] [\<lparr>req_deviceId = ''A'', numSlots = 2, priority = 5\<rparr>,
        \<lparr>req_deviceId = ''B'', numSlots = 2, priority = 5\<rparr>]"
    by (simp add: processSlotRequests_coordinator two_device_fields two_device_free)
  also have "\<dots> = [(\<lparr>req_deviceId = ''A'', numSlots = 2, priority = 5\<rparr>, Assigned [6, 13] 0),
      (\<lparr>req_deviceId = ''B'', numSlots = 2, priority = 5\<rparr>, Assigned [7, 14] 0)]"
    by (simp only: serve.simps upt_20 slot_request.select_convs assign_first assign_second
        fst_conv snd_conv) simp
  finally show ?thesis .
qed

lemma small_frame_responses:
  "snd (processSlotRequests (requestSlots 3 (becomeCoordinator (new_mac ''C'' (Some 3) None)))) =
     [(\<lparr>req_deviceId = ''C'', numSlots = 3, priority = 5\<rparr>, Assigned [1, 2] 0)]"
proof -
  let ?s = "requestSlots 3 (becomeCoordinator (new_mac ''C'' (Some 3) None))"
  have c: "isCoordinator ?s" "frameNumber ?s = 0"
    "pendingSlotRequests ?s = [\<lparr>req_deviceId = ''C'', numSlots = 3, priority = 5\<rparr>]"
    by (simp_all add: requestSlots_def becomeCoordinator_def new_mac_def)
  have u: "[0..<3] = [0, 1, 2]" by code_simp
  have f: "getAvailableSlots ?s = [1, 2]"
    by (simp add: getAvailableSlots_def requestSlots_def becomeCoordinator_def new_mac_def
        table_slots_def u)
  have a: "assign_loop 3 0 [1, 2] [] = ([1, 2], [])"
    by (simp add: assign_loop.simps Let_def)
  have "snd (processSlotRequests ?s) =
      serve 0 [1, 2] [\<lparr>req_deviceId = ''C'', numSlots = 3, priority = 5\<rparr>]"
    by (simp only: processSlotRequests_coordinator [OF c(1)] c f) simp
  also have "\<dots> = [(\<lparr>req_deviceId = ''C'', numSlots = 3, priority = 5\<rparr>, Assigned [1, 2] 0)]"
    by (simp only: serve.simps slot_request.select_convs a fst_conv snd_conv) simp
  finally show ?thesis .
qed










lemma fold_contention_counts:
  "\<forall>e\<in>set resp. length (granted (snd e)) = numSlots (fst e) \<Longrightarrow>
   \<forall>e\<in>set (snd (fold contention_step reqs (s, resp))). length (granted (snd e)) = numSlots (fst e)"
proof (induction reqs arbitrary: s resp)
  case Nil
  then show ?case by simp
next
  case (Cons r rs)
  obtain s1 resp1 where step: "contention_step r (s, resp) = (s1, resp1)"
    by (cases "contention_step r (s, resp)") auto
  have "\<forall>e\<in>set resp1. length (granted (snd e)) = numSlots (fst e)"
    using Cons.prems step by (auto simp add: contention_step_def Let_def)
  then show ?case
    using Cons.IH [of resp1 s1] by (simp add: step)
qed






lemma onFrameStart_contention_counts:
  "\<not> isCoordinator s \<Longrightarrow> pendingSlotRequests s \<noteq> [] \<Longrightarrow>
   \<forall>e\<in>set (snd (onFrameStart s)). length (granted (snd e)) = numSlots (fst e)"
  using fold_contention_counts [of "[]" "pendingSlotRequests s" "s\<lparr>currentSlot := 0\<rparr>"]
  by (simp add: onFrameStart_def processSlotRequests_def contentionBasedSlotSelection_def
      split: prod.splits)


lemma two_device_table:
  "slotTable (fst (processSlotRequests two_device_requests)) = [(''A'', [6, 13]), (''B'', [7, 14])]"
proof -
  have t: "slotTable two_device_requests = []" "deviceId two_device_requests = ''C''"
    by (simp_all add: two_device_requests_def releaseSlots_def becomeCoordinator_def new_mac_def
        table_delete_def)
  show ?thesis
    by (simp add: processSlotRequests_def two_device_fields two_device_free upt_20 Let_def
        coordinator_step_def assign_first assign_second t del: One_nat_def)
qed

text \<open>
  C8, as stated, fails on a coordinator of a frame of 3 slots that asks for 3 slots itself:
  slot 0 is its beacon slot, the two free slots are granted, and the response reports
  success with 2 slots where 3 were needed.
\<close>

theorem coordinator_partial_grant_counterexample:
  "snd (processSlotRequests (requestSlots 3 (becomeCoordinator (new_mac ''C'' (Some 3) None)))) =
     [(\<lparr>req_deviceId = ''C'', numSlots = 3, priority = 5\<rparr>, Assigned [1, 2] 0)]
   \<and> length [1, 2 :: nat] \<noteq> 3"
  by (simp add: small_frame_responses)

text \<open>
  C8, amended. In coordinator mode the pending requests are answered in descending order
  of priority. A request needing \<open>k\<close> slots is served by \<open>assign_loop\<close> from the slots that are
  free at frame start and were not granted to a request before it: it is given
  \<open>min k |free|\<close> slots, where \<open>free\<close> is what is left of the pool, and it is denied, with
  reason \<^verbatim>\<open>No slots available\<close>, exactly when it is given no slot; otherwise the
  response reports success with the granted slots and the frame number. All granted slots
  are distinct and free slots of the frame, so assignments to different requests are
  disjoint. The \<open>i\<close>-th slot of a request is taken at index \<open>\<lfloor>|free| (i + 1) / (k + 1)\<rfloor>\<close> of
  the shrinking free list, an index that is always in range. Two devices requesting 2
  slots each on an empty frame of 20 slots get the slots 6, 13 and 7, 14.
\<close>

theorem coordinator_slot_assignment:
  "isCoordinator s \<Longrightarrow>
   (let responses = snd (processSlotRequests s); free = getAvailableSlots s in
      map fst responses = sort_key (\<lambda>r. - int (priority r)) (pendingSlotRequests s)
      \<and> sorted_wrt (\<lambda>a b. priority b \<le> priority a) (map fst responses)
      \<and> (\<forall>j<length responses.
           granted (snd (responses ! j)) =
             fst (assign_loop (numSlots (fst (responses ! j))) 0
                   (filter (\<lambda>x. x \<notin> set (granted_slots (take j responses))) free) [])
           \<and> length (granted (snd (responses ! j))) =
               min (numSlots (fst (responses ! j)))
                 (length free - length (granted_slots (take j responses)))
           \<and> snd (responses ! j) =
               (if granted (snd (responses ! j)) = [] then Failed ''No slots available''
                else Assigned (granted (snd (responses ! j))) (frameNumber s)))
      \<and> distinct (granted_slots responses)
      \<and> set (granted_slots responses) \<subseteq>
           {0..<slotsPerFrame s} - set (table_slots (slotTable s)))
   \<and> (i < k \<and> pool \<noteq> [] \<longrightarrow>
        length pool * (i + 1) div (k + 1) < length pool
        \<and> assign_loop k i pool acc =
            assign_loop k (i + 1)
              (take (length pool * (i + 1) div (k + 1)) pool @
               drop (Suc (length pool * (i + 1) div (k + 1))) pool)
              (acc @ [pool ! (length pool * (i + 1) div (k + 1))]))
   \<and> (\<not> (i < k \<and> pool \<noteq> []) \<longrightarrow> assign_loop k i pool acc = (acc, pool))
   \<and> snd (processSlotRequests two_device_requests) =
       [(\<lparr>req_deviceId = ''A'', numSlots = 2, priority = 5\<rparr>, Assigned [6, 13] 0),
        (\<lparr>req_deviceId = ''B'', numSlots = 2, priority = 5\<rparr>, Assigned [7, 14] 0)]
   \<and> slotTable (fst (processSlotRequests two_device_requests)) =
       [(''A'', [6, 13]), (''B'', [7, 14])]"
proof -
  assume c: "isCoordinator s"
  let ?sorted = "sort_key (\<lambda>r. - int (priority r)) (pendingSlotRequests s)"
  let ?free = "getAvailableSlots s"
  let ?R = "serve (frameNumber s) ?free ?sorted"
  have R: "snd (processSlotRequests s) = ?R"
    using c by (rule processSlotRequests_coordinator)
  have reqs: "map fst ?R = ?sorted" by (rule serve_requests)
  have "sorted (map (\<lambda>r. - int (priority r)) ?sorted)"
    by (rule sorted_sort_key)
  then have order: "sorted_wrt (\<lambda>a b. priority b \<le> priority a) ?sorted"
    by (simp add: sorted_map)
  have dfree: "distinct ?free" by (rule getAvailableSlots_props(1))
  have each: "granted (snd (?R ! j)) =
             fst (assign_loop (numSlots (fst (?R ! j))) 0
                   (filter (\<lambda>x. x \<notin> set (granted_slots (take j ?R))) ?free) [])
           \<and> length (granted (snd (?R ! j))) =
               min (numSlots (fst (?R ! j))) (length ?free - length (granted_slots (take j ?R)))
           \<and> snd (?R ! j) =
               (if granted (snd (?R ! j)) = [] then Failed ''No slots available''
                else Assigned (granted (snd (?R ! j))) (frameNumber s))"
    if "j < length ?R" for j
  proof -
    have j: "j < length ?sorted" using that by (simp add: length_serve)
    have nth: "fst (?R ! j) = ?sorted ! j"
      using that reqs by (metis nth_map)
    show ?thesis
      using serve_pool [OF dfree j, of "frameNumber s"] serve_counts [OF j, of "frameNumber s" ?free]
      by (simp add: nth)
  qed
  have disj: "distinct (granted_slots ?R)" "set (granted_slots ?R) \<subseteq> set ?free"
    using serve_disjoint [OF dfree, of "frameNumber s" ?sorted] by simp_all
  have loop1: "i < k \<and> pool \<noteq> [] \<longrightarrow>
        length pool * (i + 1) div (k + 1) < length pool
        \<and> assign_loop k i pool acc =
            assign_loop k (i + 1)
              (take (length pool * (i + 1) div (k + 1)) pool @
               drop (Suc (length pool * (i + 1) div (k + 1))) pool)
              (acc @ [pool ! (length pool * (i + 1) div (k + 1))])"
  proof
    assume a: "i < k \<and> pool \<noteq> []"
    then have "length pool * (i + 1) div (k + 1) < length pool"
      by (intro slot_index_less) simp_all
    moreover have "assign_loop k i pool acc =
            assign_loop k (i + 1)
              (take (length pool * (i + 1) div (k + 1)) pool @
               drop (Suc (length pool * (i + 1) div (k + 1))) pool)
              (acc @ [pool ! (length pool * (i + 1) div (k + 1))])"
      using a by (subst assign_loop.simps) (simp add: Let_def)
    ultimately show "length pool * (i + 1) div (k + 1) < length pool
        \<and> assign_loop k i pool acc =
            assign_loop k (i + 1)
              (take (length pool * (i + 1) div (k + 1)) pool @
               drop (Suc (length pool * (i + 1) div (k + 1))) pool)
              (acc @ [pool ! (length pool * (i + 1) div (k + 1))])"
      by simp
  qed
  have loop2: "\<not> (i < k \<and> pool \<noteq> []) \<longrightarrow> assign_loop k i pool acc = (acc, pool)"
    by (subst assign_loop.simps) auto
  have A2: "sorted_wrt (\<lambda>a b. priority b \<le> priority a) (map fst ?R)"
    using order by (simp only: reqs)
  have A3: "\<forall>j<length ?R.
           granted (snd (?R ! j)) =
             fst (assign_loop (numSlots (fst (?R ! j))) 0
                   (filter (\<lambda>x. x \<notin> set (granted_slots (take j ?R))) ?free) [])
           \<and> length (granted (snd (?R ! j))) =
               min (numSlots (fst (?R ! j))) (length ?free - length (granted_slots (take j ?R)))
           \<and> snd (?R ! j) =
               (if granted (snd (?R ! j)) = [] then Failed ''No slots available''
                else Assigned (granted (snd (?R ! j))) (frameNumber s))"
    using each by blast
  have A5: "set (granted_slots ?R) \<subseteq> {0..<slotsPerFrame s} - set (table_slots (slotTable s))"
    using disj(2) by (simp only: getAvailableSlots_props(2))
  show ?thesis
    unfolding Let_def R
    by (intro conjI reqs A2 A3 disj(1) A5 loop1 loop2 two_device_responses two_device_table)
qed

lemma two_device_coordinator: "isCoordinator two_device_requests"
  by (simp add: two_device_requests_def releaseSlots_def becomeCoordinator_def)

theorem coordinator_slot_assignment_witness:
  "isCoordinator two_device_requests
   \<and> 0 < length (snd (processSlotRequests two_device_requests))
   \<and> granted (snd (snd (processSlotRequests two_device_requests) ! 0)) = [6, 13]
   \<and> distinct (granted_slots (snd (processSlotRequests two_device_requests)))
   \<and> (0 :: nat) < 2 \<and> [0, 1, 2 :: nat] \<noteq> []
   \<and> assign_loop 2 0 [0, 1, 2] [] = assign_loop 2 1 [0, 2] [1]"
proof -
  note t = coordinator_slot_assignment [OF two_device_coordinator, of 0 2 "[0, 1, 2]" "[]"]
  have r: "snd (processSlotRequests two_device_requests) =
       [(\<lparr>req_deviceId = ''A'', numSlots = 2, priority = 5\<rparr>, Assigned [6, 13] 0),
        (\<lparr>req_deviceId = ''B'', numSlots = 2, priority = 5\<rparr>, Assigned [7, 14] 0)]"
    using t by blast
  have d: "distinct (granted_slots (snd (processSlotRequests two_device_requests)))"
    using t unfolding Let_def by blast
  have l: "(0 :: nat) < 2 \<and> [0, 1, 2 :: nat] \<noteq> [] \<longrightarrow>
     assign_loop 2 0 [0, 1, 2] [] =
       assign_loop 2 (0 + 1)
         (take (length [0, 1, 2 :: nat] * (0 + 1) div (2 + 1)) [0, 1, 2] @
          drop (Suc (length [0, 1, 2 :: nat] * (0 + 1) div (2 + 1))) [0, 1, 2])
         ([] @ [[0, 1, 2] ! (length [0, 1, 2 :: nat] * (0 + 1) div (2 + 1))])"
    using t by blast
  have l': "assign_loop 2 0 [0, 1, 2] [] = assign_loop 2 1 [0, 2] [1]"
    using l by simp
  show ?thesis
    using two_device_coordinator d l' by (simp add: r)
qed







end
